theory Spec2Isabelle
  imports Complex_Main "HOL-Library.Word"
begin

unbundle bit_operations_syntax

section \<open>tinyWebSynth: the synthesis engine and step sequencer\<close>

text \<open>
  A shallow embedding of the tinyWebSynth sketch: the five-channel oscillator and
  envelope model, the percussion presets, the 16-step pattern store, the drift-corrected
  sequencer clock, the mixer, the WebSocket command decoder and the WAV export.
  Global variables of the sketch are the fields of one record, every function takes the
  record and returns the new one.
\<close>

subsection \<open>Arithmetic of the target\<close>

text \<open>
  The sketch computes in \<open>float\<close> (IEEE binary32) and, wherever the \<open>double\<close> macro
  \<open>PI\<close> takes part, in \<open>double\<close> (binary64). A floating-point value is modelled by the
  real number it denotes; every operation computes the exact result and rounds it to
  the format of the C expression. The two rounding functions are parameters of the
  model, so that a theorem holds for every rounding that meets its stated hypotheses.
  Infinities and NaN are not represented: where \<open>atof\<close> reads a text as a hexadecimal
  number, as infinity or NaN, or as a number beyond \<open>2^127\<close>, the model takes the value
  from a third parameter, of which no theorem assumes anything.
\<close>

record fpu =
  f32 :: "real \<Rightarrow> real"
  f64 :: "real \<Rightarrow> real"
  atof_other :: "string \<Rightarrow> real"

definition exact :: fpu where
  "exact = \<lparr>f32 = (\<lambda>x. x), f64 = (\<lambda>x. x), atof_other = (\<lambda>s. 0)\<rparr>"

text \<open>\<open>PI\<close> is the \<open>double\<close> literal of Arduino.h.\<close>

definition PI :: "fpu \<Rightarrow> real" where
  "PI fp = f64 fp (31415926535897932384626433832795 / 10 ^ 31)"

text \<open>Conversion of a floating-point value to an integer type truncates towards zero.\<close>

definition c_trunc :: "real \<Rightarrow> int" where
  "c_trunc x = (if 0 \<le> x then \<lfloor>x\<rfloor> else \<lceil>x\<rceil>)"

text \<open>
  Narrowing to \<open>int16_t\<close> and \<open>int32_t\<close> keeps the low bits (two's complement). For a
  floating-point value out of range C leaves the conversion undefined; the model wraps
  there as well.
\<close>

definition int16 :: "int \<Rightarrow> int" where
  "int16 x = (x + 32768) mod 65536 - 32768"

definition int32 :: "int \<Rightarrow> int" where
  "int32 x = (x + 2147483648) mod 4294967296 - 2147483648"

definition constrain :: "'a::linorder \<Rightarrow> 'a \<Rightarrow> 'a \<Rightarrow> 'a" where
  "constrain x lo hi = (if x < lo then lo else if x > hi then hi else x)"

subsection \<open>Audio engine\<close>

definition SAMPLE_RATE :: nat where "SAMPLE_RATE = 44100"
definition BUF_SZ :: nat where "BUF_SZ = 64"
definition NUM_CH :: nat where "NUM_CH = 5"
definition NUM_STEPS :: nat where "NUM_STEPS = 16"
definition NUM_MEL_TRK :: nat where "NUM_MEL_TRK = 2"
definition NUM_DRM_TRK :: nat where "NUM_DRM_TRK = 3"

definition CH_LEAD :: nat where "CH_LEAD = 0"
definition CH_BASS :: nat where "CH_BASS = 1"
definition CH_KICK :: nat where "CH_KICK = 2"
definition CH_SNARE :: nat where "CH_SNARE = 3"
definition CH_HAT :: nat where "CH_HAT = 4"

record Channel =
  phase :: real
  curFreq :: real
  waveType :: int
  envLvl :: real
  envDcy :: real
  active :: bool
  isNoise :: bool
  pitchMul :: real

text \<open>The default member initialisers of \<open>struct Channel\<close>.\<close>

definition Channel0 :: "fpu \<Rightarrow> Channel" where
  "Channel0 fp = \<lparr>phase = 0, curFreq = 440, waveType = 0, envLvl = 0,
     envDcy = f32 fp (9998 / 10000), active = False, isNoise = False, pitchMul = 1\<rparr>"

record MelStep =
  freq :: real
  wave :: int

definition MelStep0 :: MelStep where
  "MelStep0 = \<lparr>freq = 0, wave = 0\<rparr>"

text \<open>
  The global variables. An array is a function from its index; the sketch indexes
  \<open>ch\<close>, \<open>nlfsr\<close>, \<open>melPat\<close> and \<open>drmPat\<close> only with the \<open>CH_\<close> constants, bounded loop
  counters and values that went through \<open>constrain\<close>.
\<close>

record engine =
  ch :: "nat \<Rightarrow> Channel"
  gAmp :: int
  liveWave :: int
  nlfsr :: "nat \<Rightarrow> 16 word"
  melPat :: "nat \<Rightarrow> nat \<Rightarrow> MelStep"
  drmPat :: "nat \<Rightarrow> nat \<Rightarrow> bool"
  seqPlay :: bool
  seqBPM :: int
  seqStep :: nat
  lastStepMs :: "32 word"

definition engine0 :: "fpu \<Rightarrow> engine" where
  "engine0 fp = \<lparr>ch = (\<lambda>c. Channel0 fp), gAmp = 10000, liveWave = 0,
     nlfsr = (\<lambda>i. if i = 0 then 0xACE1 else 0x9182),
     melPat = (\<lambda>t s. MelStep0), drmPat = (\<lambda>t s. False),
     seqPlay = False, seqBPM = 120, seqStep = 0, lastStepMs = 0\<rparr>"

definition lfsrNext :: "16 word \<Rightarrow> 16 word" where
  "lfsrNext s = drop_bit 1 s XOR (if s AND 1 \<noteq> 0 then 0xB400 else 0)"

subsubsection \<open>Note triggers\<close>

definition trigNote :: "fpu \<Rightarrow> nat \<Rightarrow> real \<Rightarrow> int \<Rightarrow> engine \<Rightarrow> engine" where
  "trigNote fp c f w st = st\<lparr>ch := (ch st)(c := (ch st c)\<lparr>phase := 0, curFreq := f,
     waveType := w, envLvl := 1, envDcy := f32 fp (9998 / 10000), active := True,
     isNoise := False, pitchMul := 1\<rparr>)\<rparr>"

definition releaseNote :: "nat \<Rightarrow> engine \<Rightarrow> engine" where
  "releaseNote c st = st\<lparr>ch := (ch st)(c := (ch st c)\<lparr>active := False, envLvl := 0\<rparr>)\<rparr>"

definition trigKick :: "fpu \<Rightarrow> engine \<Rightarrow> engine" where
  "trigKick fp st = st\<lparr>ch := (ch st)(CH_KICK := (ch st CH_KICK)\<lparr>phase := 0,
     curFreq := 200, waveType := 0, envLvl := 1, envDcy := f32 fp (9997 / 10000),
     active := True, isNoise := False, pitchMul := f32 fp (9991 / 10000)\<rparr>)\<rparr>"

definition trigSnare :: "fpu \<Rightarrow> engine \<Rightarrow> engine" where
  "trigSnare fp st = st\<lparr>ch := (ch st)(CH_SNARE := (ch st CH_SNARE)\<lparr>envLvl := 1,
     envDcy := f32 fp (9988 / 10000), active := True, isNoise := True, pitchMul := 1\<rparr>),
     nlfsr := (nlfsr st)(0 := 0xACE1)\<rparr>"

definition trigHat :: "fpu \<Rightarrow> engine \<Rightarrow> engine" where
  "trigHat fp st = st\<lparr>ch := (ch st)(CH_HAT := (ch st CH_HAT)\<lparr>envLvl := 1,
     envDcy := f32 fp (9970 / 10000), active := True, isNoise := True, pitchMul := 1\<rparr>),
     nlfsr := (nlfsr st)(1 := 0x9182)\<rparr>"

subsubsection \<open>Per-sample synthesis\<close>

text \<open>
  The amplitude of one channel: \<open>(int32_t)((float)gAmp / NUM_CH * ch[c].envLvl)\<close>.
\<close>

definition chan_amp :: "fpu \<Rightarrow> int \<Rightarrow> real \<Rightarrow> int" where
  "chan_amp fp g e = int32 (c_trunc (f32 fp (f32 fp (f32 fp (of_int g) / 5) * e)))"

text \<open>
  The \<open>switch\<close> on the waveform; the operands of the sawtooth are \<open>double\<close> because
  \<open>PI\<close> is. A waveform number other than 0, 1, 2 matches no case and leaves \<open>val = 0\<close>.
\<close>

definition wave_val :: "fpu \<Rightarrow> int \<Rightarrow> real \<Rightarrow> int \<Rightarrow> int" where
  "wave_val fp w ph amp =
     (if w = 0 then (if ph < PI fp then int16 amp else int16 (- amp))
      else if w = 1 then
        int16 (c_trunc (f64 fp (f64 fp (f64 fp (f64 fp (ph / f64 fp (2 * PI fp)) * 2) - 1)
          * of_int amp)))
      else if w = 2 then (if ph < f64 fp (PI fp * (1 / 2)) then int16 amp else int16 (- amp))
      else 0)"

text \<open>Phase advance of a tonal channel, with the wrap at one full cycle.\<close>

definition next_phase :: "fpu \<Rightarrow> real \<Rightarrow> real \<Rightarrow> real" where
  "next_phase fp ph f =
     (let phInc = f32 fp (f64 fp (f64 fp (f64 fp (2 * PI fp) * f) / of_nat SAMPLE_RATE));
          ph1 = f32 fp (ph + phInc)
      in if ph1 \<ge> f64 fp (2 * PI fp) then f32 fp (f64 fp (ph1 - f64 fp (2 * PI fp))) else ph1)"

text \<open>The kick pitch sweep, floored at 30 Hz.\<close>

definition next_freq :: "fpu \<Rightarrow> real \<Rightarrow> real \<Rightarrow> real" where
  "next_freq fp f m =
     (if m \<noteq> 1 then (let f1 = f32 fp (f * m) in if f1 < 30 then 30 else f1) else f)"

definition synthSample :: "fpu \<Rightarrow> nat \<Rightarrow> engine \<Rightarrow> int \<times> engine" where
  "synthSample fp c st =
     (let k = ch st c in
      if \<not> active k \<or> envLvl k < f32 fp (1 / 1000)
      then (0, st\<lparr>ch := (ch st)(c := k\<lparr>active := False\<rparr>)\<rparr>)
      else
        let amp = chan_amp fp (gAmp st) (envLvl k) in
        if isNoise k then
          let ni = (if c = CH_SNARE then 0 else 1);
              r = lfsrNext (nlfsr st ni);
              val = (if r AND 1 \<noteq> 0 then int16 amp else int16 (- amp))
          in (val, st\<lparr>ch := (ch st)(c := k\<lparr>envLvl := f32 fp (envLvl k * envDcy k)\<rparr>),
                       nlfsr := (nlfsr st)(ni := r)\<rparr>)
        else
          let val = wave_val fp (waveType k) (phase k) amp
          in (val, st\<lparr>ch := (ch st)(c := k\<lparr>phase := next_phase fp (phase k) (curFreq k),
                         curFreq := next_freq fp (curFreq k) (pitchMul k),
                         envLvl := f32 fp (envLvl k * envDcy k)\<rparr>)\<rparr>))"

subsection \<open>Sequencer\<close>

text \<open>One melodic track of a step: trigger the mapped channel or release it.\<close>

definition trigMelTrack :: "fpu \<Rightarrow> nat \<Rightarrow> nat \<Rightarrow> engine \<Rightarrow> engine" where
  "trigMelTrack fp s t st =
     (let c = (if t = 0 then CH_LEAD else CH_BASS) in
      if freq (melPat st t s) > 0
      then trigNote fp c (freq (melPat st t s)) (wave (melPat st t s)) st
      else releaseNote c st)"

definition trigSequencerStep :: "fpu \<Rightarrow> nat \<Rightarrow> engine \<Rightarrow> engine" where
  "trigSequencerStep fp s st =
     (let st1 = fold (trigMelTrack fp s) [0..<NUM_MEL_TRK] st;
          st2 = (if drmPat st1 0 s then trigKick fp st1 else st1);
          st3 = (if drmPat st2 1 s then trigSnare fp st2 else st2)
      in if drmPat st3 2 s then trigHat fp st3 else st3)"

subsection \<open>The Arduino \<open>String\<close> operations used by the decoder\<close>

text \<open>
  \<open>String\<close> belongs to the Arduino core, not to the sketch. The operations are modelled
  after the core's WString.cpp: \<open>startsWith\<close> compares a prefix, \<open>substring\<close> clips its
  bounds to the text, \<open>indexOf\<close> returns \<open>-1\<close> when the character does not occur at or
  after the start index, \<open>toInt\<close> is \<open>atol\<close> and \<open>toFloat\<close> is \<open>atof\<close> narrowed to
  \<open>float\<close>.
\<close>

definition startsWith :: "string \<Rightarrow> string \<Rightarrow> bool" where
  "startsWith s p = (take (length p) s = p)"

definition substring_from :: "string \<Rightarrow> nat \<Rightarrow> string" where
  "substring_from s l = drop l s"

definition substring :: "string \<Rightarrow> nat \<Rightarrow> nat \<Rightarrow> string" where
  "substring s l r = (let lo = min l r; hi = max l r in take (hi - lo) (drop lo s))"

fun find_char :: "char \<Rightarrow> string \<Rightarrow> nat option" where
  "find_char c [] = None"
| "find_char c (x # xs) = (if x = c then Some 0 else map_option Suc (find_char c xs))"

definition indexOf :: "string \<Rightarrow> char \<Rightarrow> nat \<Rightarrow> int" where
  "indexOf s c from =
     (case find_char c (drop from s) of None \<Rightarrow> - 1 | Some i \<Rightarrow> int (from + i))"

definition is_space :: "char \<Rightarrow> bool" where
  "is_space c = ((of_char c :: nat) = 32 \<or> (9 \<le> (of_char c :: nat) \<and> (of_char c :: nat) \<le> 13))"

definition is_digit :: "char \<Rightarrow> bool" where
  "is_digit c = (48 \<le> (of_char c :: nat) \<and> (of_char c :: nat) \<le> 57)"

definition digits_val :: "string \<Rightarrow> nat" where
  "digits_val ds = foldl (\<lambda>a c. 10 * a + ((of_char c :: nat) - 48)) 0 ds"

text \<open>The optional sign of a C number: whether it is negative, and the rest of the text.\<close>

definition take_sign :: "string \<Rightarrow> bool \<times> string" where
  "take_sign s =
     (case s of [] \<Rightarrow> (False, [])
      | c # r \<Rightarrow> if c = CHR ''-'' then (True, r) else if c = CHR ''+'' then (False, r)
                 else (False, s))"

text \<open>
  \<open>atol\<close>: white space, an optional sign and decimal digits; anything else ends the
  number, no digit at all gives 0, and a value beyond the 32-bit \<open>long\<close> saturates.
\<close>

definition toInt :: "string \<Rightarrow> int" where
  "toInt s =
     (let (neg, r) = take_sign (dropWhile is_space s);
          n = int (digits_val (takeWhile is_digit r))
      in if neg then max (- 2147483648) (- n) else min 2147483647 n)"

text \<open>
  \<open>atof\<close> on decimal notation: white space, an optional sign, digits with an optional
  fraction, and an optional exponent that counts only when a digit follows it.
\<close>

definition dec_exponent :: "string \<Rightarrow> int" where
  "dec_exponent s =
     (case s of [] \<Rightarrow> 0
      | c # r \<Rightarrow>
          if c = CHR ''e'' \<or> c = CHR ''E'' then
            (let (neg, ds) = take_sign r; e = takeWhile is_digit ds
             in if e = [] then 0 else if neg then - int (digits_val e) else int (digits_val e))
          else 0)"

definition dec_value :: "string \<Rightarrow> real" where
  "dec_value s =
     (let (neg, r) = take_sign (dropWhile is_space s);
          ip = takeWhile is_digit r;
          r1 = dropWhile is_digit r;
          fp = (case r1 of [] \<Rightarrow> [] | c # r2 \<Rightarrow> if c = CHR ''.'' then takeWhile is_digit r2 else []);
          r3 = (case r1 of [] \<Rightarrow> [] | c # r2 \<Rightarrow> if c = CHR ''.'' then dropWhile is_digit r2 else r1);
          m = real (digits_val ip) + real (digits_val fp) / 10 ^ length fp;
          v = (if ip = [] \<and> fp = [] then 0 else m * 10 powi dec_exponent r3)
      in if neg then - v else v)"

text \<open>
  The texts \<open>atof\<close> does not read as a decimal number: behind white space and sign they
  start, in either case of the letters, with \<open>0x\<close>, \<open>inf\<close> or \<open>nan\<close>.
\<close>

definition lower_code :: "char \<Rightarrow> nat" where
  "lower_code c = (if 65 \<le> (of_char c :: nat) \<and> (of_char c :: nat) \<le> 90 then of_char c + 32 else of_char c)"

definition outside_decimal :: "string \<Rightarrow> bool" where
  "outside_decimal s =
     (let (neg, r) = take_sign (dropWhile is_space s)
      in map lower_code (take 2 r) = [48, 120] \<or> map lower_code (take 3 r) = [105, 110, 102] \<or>
         map lower_code (take 3 r) = [110, 97, 110])"

text \<open>
  \<open>toFloat\<close>: the decimal value, rounded to \<open>double\<close> by \<open>atof\<close> and to \<open>float\<close> by the
  conversion, where the text is a decimal number within the range of \<open>float\<close>; elsewhere
  the value is left to the parameter.
\<close>

definition toFloat :: "fpu \<Rightarrow> string \<Rightarrow> real" where
  "toFloat fp s =
     (if outside_decimal s \<or> 2 ^ 127 < \<bar>dec_value s\<bar> then atof_other fp s
      else f32 fp (f64 fp (dec_value s)))"

text \<open>\<open>String(int)\<close> for a value that is not negative.\<close>

fun dec_string :: "nat \<Rightarrow> string" where
  "dec_string n =
     (if n < 10 then [char_of (48 + n)] else dec_string (n div 10) @ [char_of (48 + n mod 10)])"

subsection \<open>WebSocket handler\<close>

datatype AwsEventType = WS_EVT_CONNECT | WS_EVT_DISCONNECT | WS_EVT_PONG | WS_EVT_ERROR | WS_EVT_DATA

datatype AwsFrameType = WS_CONTINUATION | WS_TEXT | WS_BINARY | WS_DISCONNECT | WS_PING | WS_PONG

text \<open>The \<open>SEQ_SET:track,step,freq,wave\<close> branch, on the text after the colon.\<close>

definition seq_set :: "fpu \<Rightarrow> string \<Rightarrow> engine \<Rightarrow> engine" where
  "seq_set fp body st =
     (let c1 = indexOf body (CHR '','') 0;
          c2 = indexOf body (CHR '','') (nat (c1 + 1));
          c3 = indexOf body (CHR '','') (nat (c2 + 1))
      in if c1 < 0 \<or> c2 < 0 \<or> c3 < 0 then st
         else
           let t = nat (constrain (toInt (substring body 0 (nat c1))) 0 (int NUM_MEL_TRK - 1));
               s = nat (constrain (toInt (substring body (nat (c1 + 1)) (nat c2))) 0 (int NUM_STEPS - 1));
               f = toFloat fp (substring body (nat (c2 + 1)) (nat c3));
               w = constrain (toInt (substring_from body (nat (c3 + 1)))) 0 2
           in st\<lparr>melPat := (melPat st)(t := (melPat st t)(s := \<lparr>freq = f, wave = w\<rparr>))\<rparr>)"

text \<open>The \<open>SEQ_DRUM:track,step,val\<close> branch.\<close>

definition seq_drum :: "string \<Rightarrow> engine \<Rightarrow> engine" where
  "seq_drum body st =
     (let c1 = indexOf body (CHR '','') 0;
          c2 = indexOf body (CHR '','') (nat (c1 + 1))
      in if c1 < 0 \<or> c2 < 0 then st
         else
           let t = nat (constrain (toInt (substring body 0 (nat c1))) 0 (int NUM_DRM_TRK - 1));
               s = nat (constrain (toInt (substring body (nat (c1 + 1)) (nat c2))) 0 (int NUM_STEPS - 1))
           in st\<lparr>drmPat := (drmPat st)(t := (drmPat st t)(s := (toInt (substring_from body (nat (c2 + 1))) \<noteq> 0)))\<rparr>)"

text \<open>\<open>memset\<close> of the two pattern arrays.\<close>

definition clear_patterns :: "engine \<Rightarrow> engine" where
  "clear_patterns st = st\<lparr>
     melPat := (\<lambda>t s. if t < NUM_MEL_TRK \<and> s < NUM_STEPS then MelStep0 else melPat st t s),
     drmPat := (\<lambda>t s. if t < NUM_DRM_TRK \<and> s < NUM_STEPS then False else drmPat st t s)\<rparr>"

text \<open>
  The handler gets the event type, the opcode of the frame, the value \<open>millis()\<close> would
  return, and the payload as text.
\<close>

definition onWsEvent :: "fpu \<Rightarrow> AwsEventType \<Rightarrow> AwsFrameType \<Rightarrow> 32 word \<Rightarrow> string \<Rightarrow> engine \<Rightarrow> engine" where
  "onWsEvent fp ty opcode now msg st =
     (if ty \<noteq> WS_EVT_DATA then st
      else if opcode \<noteq> WS_TEXT then st
      else if startsWith msg ''PLAY:'' then
        trigNote fp CH_LEAD (toFloat fp (substring_from msg 5)) (liveWave st) st
      else if msg = ''STOP'' then releaseNote CH_LEAD st
      else if startsWith msg ''WAVE:'' then
        st\<lparr>liveWave := constrain (toInt (substring_from msg 5)) 0 2\<rparr>
      else if startsWith msg ''VOL:'' then
        st\<lparr>gAmp := constrain (int32 (toInt (substring_from msg 4))) 0 30000\<rparr>
      else if startsWith msg ''SEQ_SET:'' then seq_set fp (substring_from msg 8) st
      else if startsWith msg ''SEQ_DRUM:'' then seq_drum (substring_from msg 9) st
      else if startsWith msg ''SEQ_BPM:'' then
        st\<lparr>seqBPM := constrain (toInt (substring_from msg 8)) 40 240\<rparr>
      else if msg = ''SEQ_PLAY'' then st\<lparr>seqStep := 0, lastStepMs := now, seqPlay := True\<rparr>
      else if msg = ''SEQ_STOP'' then releaseNote CH_BASS (releaseNote CH_LEAD (st\<lparr>seqPlay := False\<rparr>))
      else if msg = ''SEQ_CLEAR'' then releaseNote CH_BASS (releaseNote CH_LEAD (clear_patterns st))
      else st)"

text \<open>A text frame, the only kind that reaches the decoder.\<close>

definition ws_text :: "fpu \<Rightarrow> 32 word \<Rightarrow> string \<Rightarrow> engine \<Rightarrow> engine" where
  "ws_text fp now msg st = onWsEvent fp WS_EVT_DATA WS_TEXT now msg st"

subsection \<open>Service loop\<close>

text \<open>The length of a sixteenth note in milliseconds, in \<open>unsigned long\<close>.\<close>

definition stepDur :: "int \<Rightarrow> 32 word" where
  "stepDur bpm = 60000 div word_of_int bpm div 4"

text \<open>
  The sequencer part of \<open>loop\<close>; \<open>now\<close> is the value of \<open>millis()\<close>. The result lists the
  texts sent to the browser with \<open>ws.textAll\<close>.
\<close>

definition loop_seq :: "fpu \<Rightarrow> 32 word \<Rightarrow> engine \<Rightarrow> string list \<times> engine" where
  "loop_seq fp now st =
     (if seqPlay st then
        (let d = stepDur (seqBPM st) in
         if now - lastStepMs st \<ge> d then
           (let st1 = st\<lparr>lastStepMs := lastStepMs st + d\<rparr>;
                st2 = trigSequencerStep fp (seqStep st1) st1
            in ([''STEP:'' @ dec_string (seqStep st2)],
                st2\<lparr>seqStep := (seqStep st2 + 1) mod NUM_STEPS\<rparr>))
         else ([], st))
      else ([], st))"

text \<open>
  The sum of the five channels of one frame, before the clamp. Five \<open>int16_t\<close> values
  cannot leave the range of the \<open>int32_t\<close> accumulator.
\<close>

definition mixSum :: "fpu \<Rightarrow> engine \<Rightarrow> int \<times> engine" where
  "mixSum fp st =
     fold (\<lambda>c (mix, s). let (v, s') = synthSample fp c s in (mix + v, s')) [0..<NUM_CH] (0, st)"

definition mixFrame :: "fpu \<Rightarrow> engine \<Rightarrow> int \<times> engine" where
  "mixFrame fp st = (let (mix, st') = mixSum fp st in (int16 (constrain mix (- 32767) 32767), st'))"

text \<open>The audio part of \<open>loop\<close>: one burst of interleaved stereo samples for \<open>i2s_write\<close>.\<close>

fun render_burst :: "fpu \<Rightarrow> nat \<Rightarrow> engine \<Rightarrow> int list \<times> engine" where
  "render_burst fp 0 st = ([], st)"
| "render_burst fp (Suc n) st =
     (let (out, st1) = mixFrame fp st; (rest, st2) = render_burst fp n st1
      in (out # out # rest, st2))"

definition loop_audio :: "fpu \<Rightarrow> engine \<Rightarrow> int list \<times> engine" where
  "loop_audio fp st = render_burst fp BUF_SZ st"

text \<open>
  One iteration of \<open>loop\<close>: the sequencer, then the burst. The serial menu that ends the
  iteration (volume keys, WiFi setup, the prompt for an export) is left out; the export
  it starts follows below.
\<close>

definition loop :: "fpu \<Rightarrow> 32 word \<Rightarrow> engine \<Rightarrow> (string list \<times> int list) \<times> engine" where
  "loop fp now st =
     (let (sent, st1) = loop_seq fp now st; (buf, st2) = loop_audio fp st1
      in ((sent, buf), st2))"

subsection \<open>WAV export\<close>

text \<open>
  The SD card as the export sees it: whether \<open>SD.begin()\<close> succeeds, for which paths
  \<open>SD.open(path, FILE_WRITE)\<close> yields a file, and the files it holds. The sketch ignores
  the result of every \<open>write\<close>; the model takes each write to store all its bytes.
\<close>

record sdcard =
  sd_begin :: bool
  sd_can_open :: "string \<Rightarrow> bool"
  sd_files :: "string \<rightharpoonup> 8 word list"

text \<open>The lines the export prints on the serial port, by their format.\<close>

datatype serial_line =
    Export_failed_no_SD
  | Export_failed_open string
  | Exporting string int int "32 word" "32 word"
  | Loop_done nat int
  | Export_complete string "32 word"

text \<open>The ESP32 is little-endian: the bytes of a value in the order it stores them.\<close>

definition le16 :: "16 word \<Rightarrow> 8 word list" where
  "le16 v = [ucast v, ucast (drop_bit 8 v)]"

definition le32 :: "32 word \<Rightarrow> 8 word list" where
  "le32 v = [ucast v, ucast (drop_bit 8 v), ucast (drop_bit 16 v), ucast (drop_bit 24 v)]"

definition ascii :: "string \<Rightarrow> 8 word list" where
  "ascii s = map (\<lambda>c. of_nat (of_char c)) s"

definition writeWAVHeader :: "32 word \<Rightarrow> 8 word list" where
  "writeWAVHeader totalSamples =
     (let dataBytes = totalSamples * 4; chunkSize = 36 + dataBytes
      in ascii ''RIFF'' @ le32 chunkSize @ ascii ''WAVE'' @ ascii ''fmt '' @ le32 16 @ le16 1
         @ le16 2 @ le32 (of_nat SAMPLE_RATE) @ le32 (of_nat SAMPLE_RATE * 4) @ le16 4
         @ le16 16 @ ascii ''data'' @ le32 dataBytes)"

text \<open>
  The open file with the write buffer in front of it: \<open>wbuf\<close> holds interleaved samples,
  \<open>wbufPos\<close> counts the stereo pairs in it. A flush writes the entries below
  \<open>2 * wbufPos\<close>, all of them stored since the flush before, so the contents the local
  array starts with are never read.
\<close>

record wav_writer =
  f_bytes :: "8 word list"
  wbuf :: "nat \<Rightarrow> int"
  wbufPos :: nat

definition WBUF_SZ :: nat where "WBUF_SZ = 256"

definition flushBuf :: "wav_writer \<Rightarrow> wav_writer" where
  "flushBuf w = w\<lparr>f_bytes := f_bytes w @ concat (map (\<lambda>i. le16 (word_of_int (wbuf w i))) [0..<2 * wbufPos w]),
                  wbufPos := 0\<rparr>"

text \<open>The body of the innermost loop: one frame into the write buffer.\<close>

definition export_frame :: "fpu \<Rightarrow> wav_writer \<times> engine \<Rightarrow> wav_writer \<times> engine" where
  "export_frame fp = (\<lambda>(w, st).
     let (out, st') = mixFrame fp st;
         w1 = w\<lparr>wbuf := (wbuf w)(wbufPos w * 2 := out, wbufPos w * 2 + 1 := out),
                wbufPos := wbufPos w + 1\<rparr>
     in (if wbufPos w1 \<ge> WBUF_SZ then flushBuf w1 else w1, st'))"

definition export_step :: "fpu \<Rightarrow> nat \<Rightarrow> nat \<Rightarrow> wav_writer \<times> engine \<Rightarrow> wav_writer \<times> engine" where
  "export_step fp samplesPerStep step = (\<lambda>(w, st).
     (export_frame fp ^^ samplesPerStep) (w, trigSequencerStep fp step st))"

definition export_loop ::
  "fpu \<Rightarrow> nat \<Rightarrow> int \<Rightarrow> nat \<Rightarrow> serial_line list \<times> wav_writer \<times> engine
     \<Rightarrow> serial_line list \<times> wav_writer \<times> engine" where
  "export_loop fp samplesPerStep numLoops lp = (\<lambda>(out, w, st).
     let (w', st') = fold (export_step fp samplesPerStep) [0..<NUM_STEPS] (w, st)
     in (out @ [Loop_done (lp + 1) numLoops], w', st'))"

text \<open>The size computation of the export, in \<open>unsigned long\<close>.\<close>

definition samplesPerStep_of :: "int \<Rightarrow> 32 word" where
  "samplesPerStep_of bpm = (of_nat SAMPLE_RATE * (60000 div word_of_int bpm div 4)) div 1000"

definition reset_channels :: "fpu \<Rightarrow> engine \<Rightarrow> engine" where
  "reset_channels fp st = fold (\<lambda>c s. s\<lparr>ch := (ch s)(c := Channel0 fp)\<rparr>) [0..<NUM_CH] st"

text \<open>
  The export returns the serial output, the card and the engine as it leaves them.
\<close>

definition exportPatternToWAV ::
  "fpu \<Rightarrow> string \<Rightarrow> int \<Rightarrow> sdcard \<Rightarrow> engine \<Rightarrow> serial_line list \<times> sdcard \<times> engine" where
  "exportPatternToWAV fp filename numLoops sd st =
     (if \<not> sd_begin sd then ([Export_failed_no_SD], sd, st)
      else
        let path = ''/'' @ filename;
            sd1 = (if sd_files sd path \<noteq> None then sd\<lparr>sd_files := (sd_files sd)(path := None)\<rparr> else sd)
        in if \<not> sd_can_open sd1 path then ([Export_failed_open path], sd1, st)
           else
             let samplesPerStep = samplesPerStep_of (seqBPM st);
                 totalSamples = samplesPerStep * of_nat NUM_STEPS * word_of_int numLoops;
                 out0 = [Exporting filename numLoops (seqBPM st) totalSamples (totalSamples * 4 div 1024)];
                 w0 = \<lparr>f_bytes = writeWAVHeader totalSamples, wbuf = (\<lambda>i. 0), wbufPos = 0\<rparr>;
                 st0 = reset_channels fp st;
                 (out1, w1, st1) = fold (export_loop fp (unat samplesPerStep) numLoops)
                                     [0..<nat numLoops] (out0, w0, st0);
                 w2 = (if wbufPos w1 > 0 then flushBuf w1 else w1)
             in (out1 @ [Export_complete path (totalSamples * 4 div 1024)],
                 sd1\<lparr>sd_files := (sd_files sd1)(path \<mapsto> f_bytes w2)\<rparr>, st1))"

subsection \<open>Executions and auxiliary notions\<close>

text \<open>
  A run of the service loop: one iteration per value of \<open>millis()\<close>, collecting the
  step notifications sent to the browser.
\<close>

fun run_loop :: "fpu \<Rightarrow> 32 word list \<Rightarrow> engine \<Rightarrow> string list \<times> engine" where
  "run_loop fp [] st = ([], st)"
| "run_loop fp (now # nows) st =
     (let ((sent, buf), st1) = loop fp now st; (rest, st2) = run_loop fp nows st1
      in (sent @ rest, st2))"

text \<open>
  The iterations of a run are on time when the \<open>k\<close>-th of them, counted from \<open>k\<close>
  onwards, happens at least \<open>k\<close> step durations after the start.
\<close>

fun on_time :: "32 word \<Rightarrow> 32 word \<Rightarrow> nat \<Rightarrow> 32 word list \<Rightarrow> bool" where
  "on_time d start k [] = True"
| "on_time d start k (now # nows) =
     (k * unat d \<le> unat (now - start) \<and> on_time d start (Suc k) nows)"

text \<open>The part of the engine that synthesis and triggers leave alone.\<close>

definition ctl :: "engine \<Rightarrow> engine" where
  "ctl st = st\<lparr>ch := (\<lambda>c. Channel0 exact), nlfsr := (\<lambda>i. 0)\<rparr>"

text \<open>No channel is sounding.\<close>

definition silent :: "engine \<Rightarrow> bool" where
  "silent st = (\<forall>c<NUM_CH. \<not> active (ch st c))"

text \<open>Every melodic step is a rest (frequency 0) and every drum step is off.\<close>

definition rest_pattern :: "engine \<Rightarrow> bool" where
  "rest_pattern st =
     ((\<forall>t<NUM_MEL_TRK. \<forall>s<NUM_STEPS. freq (melPat st t s) = 0) \<and>
      (\<forall>t<NUM_DRM_TRK. \<forall>s<NUM_STEPS. \<not> drmPat st t s))"

text \<open>
  The writer after \<open>n\<close> frames of silence behind the header \<open>hdr\<close>: zeros in the file,
  zeros in the buffer.
\<close>

definition zero_writer :: "8 word list \<Rightarrow> nat \<Rightarrow> wav_writer \<Rightarrow> bool" where
  "zero_writer hdr n w =
     (wbufPos w < WBUF_SZ \<and> wbufPos w \<le> n \<and> (\<forall>i<2 * wbufPos w. wbuf w i = 0) \<and>
      f_bytes w = hdr @ replicate (4 * (n - wbufPos w)) 0)"

text \<open>
  Two engines hold the same song: the pattern grids, the BPM and the global amplitude
  agree. Everything else (channels, noise registers, live waveform, sequencer clock)
  may differ.
\<close>

definition same_song :: "engine \<Rightarrow> engine \<Rightarrow> bool" where
  "same_song a b =
     (gAmp a = gAmp b \<and> seqBPM a = seqBPM b \<and>
      (\<forall>t<NUM_MEL_TRK. \<forall>s<NUM_STEPS. melPat a t s = melPat b t s) \<and>
      (\<forall>t<NUM_DRM_TRK. \<forall>s<NUM_STEPS. drmPat a t s = drmPat b t s))"

text \<open>
  Two engines render alike: the five channels agree, no tonal channel is switched to
  noise, and a noise register agrees wherever its drum is sounding.
\<close>

definition same_render :: "engine \<Rightarrow> engine \<Rightarrow> bool" where
  "same_render a b =
     (ch a CH_LEAD = ch b CH_LEAD \<and> ch a CH_BASS = ch b CH_BASS \<and> ch a CH_KICK = ch b CH_KICK \<and>
      ch a CH_SNARE = ch b CH_SNARE \<and> ch a CH_HAT = ch b CH_HAT \<and>
      \<not> isNoise (ch a CH_LEAD) \<and> \<not> isNoise (ch a CH_BASS) \<and> \<not> isNoise (ch a CH_KICK) \<and>
      (active (ch a CH_SNARE) \<longrightarrow> nlfsr a 0 = nlfsr b 0) \<and>
      (active (ch a CH_HAT) \<longrightarrow> nlfsr a 1 = nlfsr b 1))"

text \<open>
  What the theorems on amplitudes and envelopes ask of a rounding function: it is
  monotone, it returns a value of the format unchanged, and every integer of magnitude
  up to \<open>2^24\<close> is a value of the format. Rounding to nearest into binary32 or binary64
  is such a function.
\<close>

definition rounding :: "(real \<Rightarrow> real) \<Rightarrow> bool" where
  "rounding r = (mono r \<and> (\<forall>x. r (r x) = r x) \<and> (\<forall>k::int. \<bar>k\<bar> \<le> 2 ^ 24 \<longrightarrow> r (of_int k) = of_int k))"

text \<open>
  The error bound of rounding to nearest into binary32: within the normal range the
  result is off by at most the fraction \<open>2^-24\<close> of the exact value.
\<close>

definition rel_error :: "(real \<Rightarrow> real) \<Rightarrow> bool" where
  "rel_error r = (\<forall>x. 1 / 2 ^ 126 \<le> \<bar>x\<bar> \<and> \<bar>x\<bar> \<le> 2 ^ 127 \<longrightarrow> \<bar>r x - x\<bar> \<le> \<bar>x\<bar> / 2 ^ 24)"

text \<open>What \<open>synthSample\<close> does to the record of the channel it renders.\<close>

definition chan_step :: "fpu \<Rightarrow> Channel \<Rightarrow> Channel" where
  "chan_step fp k =
     (if \<not> active k \<or> envLvl k < f32 fp (1 / 1000) then k\<lparr>active := False\<rparr>
      else if isNoise k then k\<lparr>envLvl := f32 fp (envLvl k * envDcy k)\<rparr>
      else k\<lparr>phase := next_phase fp (phase k) (curFreq k),
             curFreq := next_freq fp (curFreq k) (pitchMul k),
             envLvl := f32 fp (envLvl k * envDcy k)\<rparr>)"

text \<open>
  The operations on channels: rendering a sample, a release and the four triggers; which
  channel a trigger restarts; and the engines a sequence of operations passes through.
\<close>

datatype chan_op = Render nat | Release nat | TrigNote nat real int | TrigKick | TrigSnare | TrigHat

fun apply_op :: "fpu \<Rightarrow> chan_op \<Rightarrow> engine \<Rightarrow> engine" where
  "apply_op fp (Render c) st = snd (synthSample fp c st)"
| "apply_op fp (Release c) st = releaseNote c st"
| "apply_op fp (TrigNote c f w) st = trigNote fp c f w st"
| "apply_op fp TrigKick st = trigKick fp st"
| "apply_op fp TrigSnare st = trigSnare fp st"
| "apply_op fp TrigHat st = trigHat fp st"

fun triggers :: "chan_op \<Rightarrow> nat \<Rightarrow> bool" where
  "triggers (TrigNote c' f w) c = (c' = c)"
| "triggers TrigKick c = (c = CH_KICK)"
| "triggers TrigSnare c = (c = CH_SNARE)"
| "triggers TrigHat c = (c = CH_HAT)"
| "triggers (Render c') c = False"
| "triggers (Release c') c = False"

fun run_ops :: "fpu \<Rightarrow> chan_op list \<Rightarrow> engine \<Rightarrow> engine list" where
  "run_ops fp [] st = []"
| "run_ops fp (x # xs) st = apply_op fp x st # run_ops fp xs (apply_op fp x st)"

text \<open>The engine after \<open>n\<close> rendered frames.\<close>

definition frames :: "fpu \<Rightarrow> nat \<Rightarrow> engine \<Rightarrow> engine" where
  "frames fp n st = ((\<lambda>s. snd (mixSum fp s)) ^^ n) st"

text \<open>
  The envelope of a channel is in order: the level is a value of the format and not
  negative, the decay factor lies in the unit interval.
\<close>

definition env_ok :: "fpu \<Rightarrow> Channel \<Rightarrow> bool" where
  "env_ok fp k = (0 \<le> envLvl k \<and> f32 fp (envLvl k) = envLvl k \<and> 0 \<le> envDcy k \<and> envDcy k \<le> 1)"

text \<open>
  The kick channel during its sweep, above the floor: sounding, tonal, with the factors
  of the preset, and with a frequency that, as a fraction of its start value 200, is at
  most the envelope level. And the kick channel on the floor.
\<close>

definition kick_sweep :: "fpu \<Rightarrow> Channel \<Rightarrow> bool" where
  "kick_sweep fp k =
     (active k \<and> \<not> isNoise k \<and> pitchMul k = f32 fp (9991 / 10000) \<and>
      envDcy k = f32 fp (9997 / 10000) \<and> 30 < curFreq k \<and> curFreq k \<le> 200 \<and>
      curFreq k \<le> 200 * envLvl k \<and> envLvl k \<le> 1)"

definition kick_floor :: "fpu \<Rightarrow> Channel \<Rightarrow> bool" where
  "kick_floor fp k = (\<not> isNoise k \<and> pitchMul k = f32 fp (9991 / 10000) \<and> curFreq k = 30)"

text \<open>
  A channel within bounds: the envelope level lies in the unit interval and the phase
  within one cycle, from 0 up to the \<open>double\<close> value of \<open>2.0f * PI\<close>.
\<close>

definition in_bounds :: "fpu \<Rightarrow> Channel \<Rightarrow> bool" where
  "in_bounds fp k =
     (0 \<le> envLvl k \<and> envLvl k \<le> 1 \<and> 0 \<le> phase k \<and> phase k < f64 fp (2 * PI fp))"

text \<open>
  A state reached through the command interface and the sequencer: full volume, a
  sawtooth of 88200 Hz (twice the sample rate) on step 0 of both melodic tracks, the
  sequencer started at time 0; then the service loop at 125 ms, which fires step 0, and
  the first two frames of its burst.
\<close>

definition loud_song :: engine where
  "loud_song = ws_text exact 0 ''SEQ_PLAY'' (ws_text exact 0 ''SEQ_SET:1,0,88200,1''
     (ws_text exact 0 ''SEQ_SET:0,0,88200,1'' (ws_text exact 0 ''VOL:30000'' (engine0 exact))))"

definition loud_frame :: engine where
  "loud_frame = frames exact 2 (snd (loop_seq exact 125 loud_song))"

text \<open>
  The engine after a sequence of operations. The sketch restarts the kick channel with
  \<open>trigKick\<close> only and calls \<open>releaseNote\<close> for lead and bass only: an operation is free
  of the kick when it is neither a trigger nor a release of the kick channel.
\<close>

definition after_ops :: "fpu \<Rightarrow> chan_op list \<Rightarrow> engine \<Rightarrow> engine" where
  "after_ops fp ops st = fold (apply_op fp) ops st"

definition kick_free :: "chan_op \<Rightarrow> bool" where
  "kick_free x = (\<not> triggers x CH_KICK \<and> x \<noteq> Release CH_KICK)"

section \<open>Properties\<close>

subsection \<open>Synthesis and triggers leave the control state alone\<close>

lemma ctl_eqD:
  assumes "ctl a = ctl b"
  shows "gAmp a = gAmp b" "liveWave a = liveWave b" "melPat a = melPat b" "drmPat a = drmPat b"
    "seqPlay a = seqPlay b" "seqBPM a = seqBPM b" "seqStep a = seqStep b" "lastStepMs a = lastStepMs b"
proof -
  have "gAmp (ctl a) = gAmp (ctl b)" "liveWave (ctl a) = liveWave (ctl b)"
    "melPat (ctl a) = melPat (ctl b)" "drmPat (ctl a) = drmPat (ctl b)"
    "seqPlay (ctl a) = seqPlay (ctl b)" "seqBPM (ctl a) = seqBPM (ctl b)"
    "seqStep (ctl a) = seqStep (ctl b)" "lastStepMs (ctl a) = lastStepMs (ctl b)"
    using assms by simp_all
  then show "gAmp a = gAmp b" "liveWave a = liveWave b" "melPat a = melPat b" "drmPat a = drmPat b"
    "seqPlay a = seqPlay b" "seqBPM a = seqBPM b" "seqStep a = seqStep b" "lastStepMs a = lastStepMs b"
    by (simp_all add: ctl_def)
qed

lemma ctl_synthSample: "ctl (snd (synthSample fp c st)) = ctl st"
  by (simp add: synthSample_def ctl_def Let_def)

lemma ctl_fold_synth:
  "ctl (snd (fold (\<lambda>c (mix, s). let (v, s') = synthSample fp c s in (mix + v, s')) cs (m, st))) = ctl st"
proof (induction cs arbitrary: m st)
  case Nil
  show ?case by simp
next
  case (Cons c cs)
  obtain v s' where vs: "synthSample fp c st = (v, s')" by (cases "synthSample fp c st")
  have "ctl s' = ctl st" using ctl_synthSample [of fp c st] vs by simp
  with Cons [of "m + v" s'] vs show ?case by simp
qed

lemma ctl_mixSum: "ctl (snd (mixSum fp st)) = ctl st"
  unfolding mixSum_def by (rule ctl_fold_synth)

lemma ctl_mixFrame: "ctl (snd (mixFrame fp st)) = ctl st"
  using ctl_mixSum [of fp st] by (auto simp: mixFrame_def split: prod.splits)

lemma ctl_render_burst: "ctl (snd (render_burst fp n st)) = ctl st"
proof (induction n arbitrary: st)
  case 0
  show ?case by simp
next
  case (Suc n)
  obtain out st1 where a: "mixFrame fp st = (out, st1)" by (cases "mixFrame fp st")
  have "ctl st1 = ctl st" using ctl_mixFrame [of fp st] a by simp
  with Suc [of st1] a show ?case by (auto split: prod.splits)
qed

lemma ctl_loop_audio: "ctl (snd (loop_audio fp st)) = ctl st"
  by (simp add: loop_audio_def ctl_render_burst)

lemma ctl_trigNote: "ctl (trigNote fp c f w st) = ctl st"
  by (simp add: trigNote_def ctl_def)
lemma ctl_releaseNote: "ctl (releaseNote c st) = ctl st"
  by (simp add: releaseNote_def ctl_def)
lemma ctl_trigKick: "ctl (trigKick fp st) = ctl st"
  by (simp add: trigKick_def ctl_def)
lemma ctl_trigSnare: "ctl (trigSnare fp st) = ctl st"
  by (simp add: trigSnare_def ctl_def)
lemma ctl_trigHat: "ctl (trigHat fp st) = ctl st"
  by (simp add: trigHat_def ctl_def)

lemma ctl_trigMelTrack: "ctl (trigMelTrack fp s t st) = ctl st"
  by (simp add: trigMelTrack_def Let_def ctl_trigNote ctl_releaseNote)

lemma ctl_fold_trigMelTrack: "ctl (fold (trigMelTrack fp s) ts st) = ctl st"
  by (induction ts arbitrary: st) (simp_all add: ctl_trigMelTrack)

lemma ctl_trigSequencerStep: "ctl (trigSequencerStep fp s st) = ctl st"
  by (simp add: trigSequencerStep_def Let_def ctl_trigKick ctl_trigSnare ctl_trigHat ctl_fold_trigMelTrack)

text \<open>Unfolding these evaluates the decoder on a concrete message.\<close>

lemmas parse_defs = toInt_def toFloat_def outside_decimal_def lower_code_def dec_value_def take_sign_def is_space_def is_digit_def digits_val_def dec_exponent_def
  substring_def substring_from_def indexOf_def startsWith_def

lemma seq_play_state:
  "seqPlay (ws_text fp t0 ''SEQ_PLAY'' st)"
  "lastStepMs (ws_text fp t0 ''SEQ_PLAY'' st) = t0"
  "seqBPM (ws_text fp t0 ''SEQ_PLAY'' st) = seqBPM st"
  by (simp_all add: ws_text_def onWsEvent_def startsWith_def)

lemma ch_names: "CH_LEAD \<noteq> CH_BASS" "CH_LEAD \<noteq> CH_KICK" "CH_LEAD \<noteq> CH_SNARE" "CH_LEAD \<noteq> CH_HAT"
  "CH_BASS \<noteq> CH_KICK" "CH_BASS \<noteq> CH_SNARE" "CH_BASS \<noteq> CH_HAT"
  "CH_KICK \<noteq> CH_SNARE" "CH_KICK \<noteq> CH_HAT" "CH_SNARE \<noteq> CH_HAT"
  by (simp_all add: CH_LEAD_def CH_BASS_def CH_KICK_def CH_SNARE_def CH_HAT_def)

lemma mel_tracks: "[0..<NUM_MEL_TRK] = [0, 1]"
  by (simp add: NUM_MEL_TRK_def upt_rec)

lemmas trig_defs = trigNote_def releaseNote_def trigKick_def trigSnare_def trigHat_def

lemma channels: "[0..<NUM_CH] = [0, 1, 2, 3, 4]"
  by (simp add: NUM_CH_def upt_rec)

lemma ctl_reset_channels: "ctl (reset_channels fp st) = ctl st"
  by (simp add: reset_channels_def channels ctl_def)

lemma ch_reset_channels:
  "ch (reset_channels fp st) c = (if c < NUM_CH then Channel0 fp else ch st c)"
proof -
  have "c < NUM_CH \<longleftrightarrow> c = 0 \<or> c = 1 \<or> c = 2 \<or> c = 3 \<or> c = 4"
    unfolding NUM_CH_def by arith
  then show ?thesis by (auto simp: reset_channels_def channels)
qed

lemmas ch_nums = CH_LEAD_def CH_BASS_def CH_KICK_def CH_SNARE_def CH_HAT_def

text \<open>Rendering a channel touches the record of that channel only.\<close>

lemma ch_synthSample_same: "ch (snd (synthSample fp c st)) c = chan_step fp (ch st c)"
  by (simp add: synthSample_def chan_step_def Let_def)

lemma ch_synthSample_other: "c' \<noteq> c \<Longrightarrow> ch (snd (synthSample fp c st)) c' = ch st c'"
  by (simp add: synthSample_def Let_def)

text \<open>Consequences of the hypotheses on rounding.\<close>

lemma rounding_int: "rounding r \<Longrightarrow> \<bar>k\<bar> \<le> 2 ^ 24 \<Longrightarrow> r (of_int k) = of_int k"
  by (simp add: rounding_def)

lemma rounding_0: "rounding r \<Longrightarrow> r 0 = 0"
  using rounding_int [of r 0] by simp

lemma rounding_1: "rounding r \<Longrightarrow> r 1 = 1"
  using rounding_int [of r 1] by simp

lemma rounding_mono: "rounding r \<Longrightarrow> x \<le> y \<Longrightarrow> r x \<le> r y"
  by (simp add: rounding_def mono_def)

lemma rounding_idem: "rounding r \<Longrightarrow> r (r x) = r x"
  by (simp add: rounding_def)

lemma rounding_unit:
  assumes "rounding r" "0 \<le> x" "x \<le> 1"
  shows "0 \<le> r x \<and> r x \<le> 1"
  using rounding_mono [OF assms(1,2)] rounding_mono [OF assms(1,3)]
    rounding_0 [OF assms(1)] rounding_1 [OF assms(1)] by simp

text \<open>A frame renders every channel once.\<close>

lemma ch_fold_synth:
  "distinct cs \<Longrightarrow>
   ch (snd (fold (\<lambda>c (mix, s). let (v, s') = synthSample fp c s in (mix + v, s')) cs (m, st))) c =
     (if c \<in> set cs then chan_step fp (ch st c) else ch st c)"
proof (induction cs arbitrary: m st)
  case Nil
  show ?case by simp
next
  case (Cons x xs)
  let ?F = "\<lambda>c (mix, s). let (v, s') = synthSample fp c s in (mix + v, s')"
  obtain v s' where vs: "synthSample fp x st = (v, s')" by (metis prod.exhaust)
  have s: "s' = snd (synthSample fp x st)" using vs by simp
  have d: "distinct xs" "x \<notin> set xs" using Cons.prems by simp_all
  have f: "fold ?F (x # xs) (m, st) = fold ?F xs (m + v, s')" using vs by simp
  have ih: "ch (snd (fold ?F xs (m + v, s'))) c = (if c \<in> set xs then chan_step fp (ch s' c) else ch s' c)"
    by (rule Cons.IH [OF d(1)])
  show ?case
  proof (cases "c = x")
    case True
    then have "c \<notin> set xs" using d(2) by simp
    with ih True show ?thesis unfolding f by (simp add: s ch_synthSample_same)
  next
    case False
    then have "ch s' c = ch st c" by (simp add: s ch_synthSample_other)
    with ih False show ?thesis unfolding f by simp
  qed
qed

lemma ch_mixSum: "c < NUM_CH \<Longrightarrow> ch (snd (mixSum fp st)) c = chan_step fp (ch st c)"
  unfolding mixSum_def by (subst ch_fold_synth) simp_all

lemma ch_frames: "c < NUM_CH \<Longrightarrow> ch (frames fp n st) c = (chan_step fp ^^ n) (ch st c)"
  by (induction n) (simp_all add: frames_def ch_mixSum)

lemma ctl_frames: "ctl (frames fp n st) = ctl st"
  by (induction n) (simp_all add: frames_def ctl_mixSum)

lemma exact_sel: "f32 exact x = x" "f64 exact x = x"
  by (simp_all add: exact_def)

text \<open>
  The burst of the service loop and the inner loop of the export render frames one
  after the other: the engine after a burst is the engine after that many frames.
\<close>

lemma snd_mixFrame: "snd (mixFrame fp st) = snd (mixSum fp st)"
  by (cases "mixSum fp st") (simp add: mixFrame_def)

lemma render_burst_frames: "snd (render_burst fp n st) = frames fp n st"
proof (induction n arbitrary: st)
  case 0
  show ?case by (simp add: frames_def)
next
  case (Suc n)
  have "snd (render_burst fp (Suc n) st) = snd (render_burst fp n (snd (mixFrame fp st)))"
    by (simp split: prod.splits)
  also have "\<dots> = frames fp n (snd (mixSum fp st))" by (simp add: Suc snd_mixFrame)
  also have "\<dots> = frames fp (Suc n) st"
    unfolding frames_def by (simp only: funpow_Suc_right o_apply)
  finally show ?case .
qed

lemma loop_frames: "snd (loop fp now st) = frames fp BUF_SZ (snd (loop_seq fp now st))"
  by (simp add: loop_def loop_audio_def render_burst_frames [symmetric] split: prod.splits)

lemma gAmp_synthSample: "gAmp (snd (synthSample fp c st)) = gAmp st"
  using ctl_eqD(1) [OF ctl_synthSample] .

text \<open>
  Rendering silence: while no channel sounds a frame mixes to 0 and leaves the engine
  as it is, and a step of an empty pattern keeps the engine silent.
\<close>

lemma synthSample_inactive:
  assumes "\<not> active (ch st c)"
  shows "synthSample fp c st = (0, st)"
proof -
  have "(ch st c)\<lparr>active := False\<rparr> = ch st c" using assms by simp
  then have "st\<lparr>ch := (ch st)(c := (ch st c)\<lparr>active := False\<rparr>)\<rparr> = st" by simp
  then show ?thesis using assms by (simp add: synthSample_def Let_def)
qed

lemma mixSum_silent:
  assumes "silent st"
  shows "mixSum fp st = (0, st)"
proof -
  have "\<not> active (ch st 0)" "\<not> active (ch st 1)" "\<not> active (ch st 2)" "\<not> active (ch st 3)"
    "\<not> active (ch st 4)"
    using assms by (simp_all add: silent_def NUM_CH_def)
  then show ?thesis by (simp add: mixSum_def channels synthSample_inactive)
qed

lemma mixFrame_silent: "silent st \<Longrightarrow> mixFrame fp st = (0, st)"
  by (simp add: mixFrame_def mixSum_silent constrain_def int16_def)

lemma concat_le16_zero:
  "(\<forall>i<m. g i = (0::int)) \<Longrightarrow> concat (map (\<lambda>i. le16 (word_of_int (g i))) [0..<m]) = replicate (2 * m) 0"
proof (induction m)
  case 0
  show ?case by simp
next
  case (Suc m)
  have "replicate (2 * m) (0::8 word) @ [0, 0] = replicate (2 * m) 0 @ replicate 2 0"
    by (simp add: numeral_2_eq_2)
  also have "\<dots> = replicate (2 * Suc m) 0" by (simp add: replicate_add [symmetric])
  finally show ?case using Suc by (simp add: le16_def)
qed

lemma flushBuf_zero:
  assumes "\<forall>i<2 * wbufPos w. wbuf w i = 0" "wbufPos w \<le> n"
    "f_bytes w = hdr @ replicate (4 * (n - wbufPos w)) 0"
  shows "zero_writer hdr n (flushBuf w)"
proof -
  have "replicate (4 * (n - wbufPos w)) (0::8 word) @ replicate (2 * (2 * wbufPos w)) 0
      = replicate (4 * n) 0"
    using assms(2) by (simp add: replicate_add [symmetric])
  then show ?thesis
    using assms by (simp add: zero_writer_def flushBuf_def concat_le16_zero WBUF_SZ_def)
qed

lemma export_frame_silent:
  assumes "silent st" "zero_writer hdr n w"
  shows "snd (export_frame fp (w, st)) = st \<and> zero_writer hdr (Suc n) (fst (export_frame fp (w, st)))"
proof -
  let ?w1 = "w\<lparr>wbuf := (wbuf w)(wbufPos w * 2 := 0, wbufPos w * 2 + 1 := 0), wbufPos := wbufPos w + 1\<rparr>"
  have e: "export_frame fp (w, st) = (if wbufPos ?w1 \<ge> WBUF_SZ then flushBuf ?w1 else ?w1, st)"
    using assms(1) by (simp add: export_frame_def mixFrame_silent)
  have z: "\<forall>i<2 * wbufPos ?w1. wbuf ?w1 i = 0"
    using assms(2) by (auto simp: zero_writer_def)
  have le: "wbufPos ?w1 \<le> Suc n" using assms(2) by (simp add: zero_writer_def)
  have fb: "f_bytes ?w1 = hdr @ replicate (4 * (Suc n - wbufPos ?w1)) 0"
    using assms(2) by (simp add: zero_writer_def)
  show ?thesis
  proof (cases "wbufPos ?w1 \<ge> WBUF_SZ")
    case True
    with e flushBuf_zero [OF z le fb] show ?thesis by simp
  next
    case False
    with e z le fb show ?thesis by (simp add: zero_writer_def)
  qed
qed

lemma export_frames_silent:
  assumes "silent st" "zero_writer hdr n w"
  shows "snd ((export_frame fp ^^ k) (w, st)) = st \<and>
         zero_writer hdr (n + k) (fst ((export_frame fp ^^ k) (w, st)))"
proof (induction k)
  case 0
  show ?case using assms by simp
next
  case (Suc k)
  obtain w' where p: "(export_frame fp ^^ k) (w, st) = (w', st)"
    using Suc by (metis prod.collapse)
  with Suc have z: "zero_writer hdr (n + k) w'" by simp
  from export_frame_silent [OF assms(1) z, of fp] p show ?case by simp
qed


lemma rest_pattern_ctl: "ctl a = ctl b \<Longrightarrow> rest_pattern a = rest_pattern b"
  using ctl_eqD(3,4) [of a b] by (simp add: rest_pattern_def)

lemma trigSequencerStep_rest:
  assumes "silent st" "rest_pattern st" "s < NUM_STEPS"
  shows "silent (trigSequencerStep fp s st) \<and> rest_pattern (trigSequencerStep fp s st)"
proof -
  have m: "freq (melPat st 0 s) = 0" "freq (melPat st 1 s) = 0"
    using assms(2,3) by (simp_all add: rest_pattern_def NUM_MEL_TRK_def)
  have d: "\<not> drmPat st 0 s" "\<not> drmPat st 1 s" "\<not> drmPat st 2 s"
    using assms(2,3) by (simp_all add: rest_pattern_def NUM_DRM_TRK_def)
  have "silent (trigSequencerStep fp s st)"
    using assms(1) m d
    by (simp add: trigSequencerStep_def trigMelTrack_def mel_tracks Let_def releaseNote_def silent_def)
  moreover have "rest_pattern (trigSequencerStep fp s st)"
    using rest_pattern_ctl [OF ctl_trigSequencerStep] assms(2) by simp
  ultimately show ?thesis by simp
qed

lemma export_step_silent:
  assumes "silent st" "rest_pattern st" "s < NUM_STEPS" "zero_writer hdr n w"
  shows "silent (snd (export_step fp k s (w, st))) \<and> rest_pattern (snd (export_step fp k s (w, st))) \<and>
         zero_writer hdr (n + k) (fst (export_step fp k s (w, st)))"
proof -
  note t = trigSequencerStep_rest [OF assms(1,2,3), where fp = fp]
  from export_frames_silent [where st = "trigSequencerStep fp s st" and hdr = hdr and n = n
      and w = w and fp = fp and k = k] t assms(4)
  show ?thesis by (simp add: export_step_def)
qed

lemma export_steps_silent:
  assumes "\<forall>s\<in>set ss. s < NUM_STEPS"
  shows "silent st \<Longrightarrow> rest_pattern st \<Longrightarrow> zero_writer hdr n w \<Longrightarrow>
         silent (snd (fold (export_step fp k) ss (w, st))) \<and>
         rest_pattern (snd (fold (export_step fp k) ss (w, st))) \<and>
         zero_writer hdr (n + k * length ss) (fst (fold (export_step fp k) ss (w, st)))"
  using assms
proof (induction ss arbitrary: w st n)
  case Nil
  then show ?case by simp
next
  case (Cons s ss)
  obtain w' st' where e: "export_step fp k s (w, st) = (w', st')" by (metis prod.exhaust)
  have s: "s < NUM_STEPS" using Cons.prems(4) by simp
  from export_step_silent [OF Cons.prems(1,2) s Cons.prems(3), where fp = fp and k = k] e
  have i: "silent st'" "rest_pattern st'" "zero_writer hdr (n + k) w'" by simp_all
  have "\<forall>s\<in>set ss. s < NUM_STEPS" using Cons.prems(4) by simp
  from Cons.IH [OF i this] e show ?case by (simp add: algebra_simps)
qed

lemma export_loop_silent:
  assumes "silent st" "rest_pattern st" "zero_writer hdr n w"
  shows "silent (snd (snd (export_loop fp k L lp (out, w, st)))) \<and>
         rest_pattern (snd (snd (export_loop fp k L lp (out, w, st)))) \<and>
         zero_writer hdr (n + k * NUM_STEPS) (fst (snd (export_loop fp k L lp (out, w, st))))"
proof -
  have "\<forall>s\<in>set [0..<NUM_STEPS]. s < NUM_STEPS" by simp
  from export_steps_silent [OF this assms, where fp = fp and k = k]
  show ?thesis by (simp add: export_loop_def split: prod.splits)
qed

lemma export_loops_silent:
  "silent st \<Longrightarrow> rest_pattern st \<Longrightarrow> zero_writer hdr n w \<Longrightarrow>
   zero_writer hdr (n + k * NUM_STEPS * length ls)
     (fst (snd (fold (export_loop fp k L) ls (out, w, st))))"
proof (induction ls arbitrary: out w st n)
  case Nil
  then show ?case by simp
next
  case (Cons lp ls)
  obtain out' w' st' where e: "export_loop fp k L lp (out, w, st) = (out', w', st')"
    by (metis prod.exhaust)
  from export_loop_silent [OF Cons.prems, where fp = fp and k = k and L = L and lp = lp and out = out] e
  have i: "silent st'" "rest_pattern st'" "zero_writer hdr (n + k * NUM_STEPS) w'" by simp_all
  from Cons.IH [OF i, where out = out'] e show ?case by (simp add: algebra_simps)
qed

lemma silent_reset_channels: "silent (reset_channels fp st)"
  by (simp add: silent_def ch_reset_channels Channel0_def)

subsection \<open>The step clock\<close>

lemma loop_sent: "fst (fst (loop fp now st)) = fst (loop_seq fp now st)"
  by (simp add: loop_def split: prod.splits)

lemma ctl_loop: "ctl (snd (loop fp now st)) = ctl (snd (loop_seq fp now st))"
  using ctl_loop_audio [of fp "snd (loop_seq fp now st)"]
  by (auto simp: loop_def split: prod.splits)

lemma loop_seq_fire:
  assumes "seqPlay st" "stepDur (seqBPM st) \<le> now - lastStepMs st"
  shows "length (fst (loop_seq fp now st)) = 1"
    and "lastStepMs (snd (loop_seq fp now st)) = lastStepMs st + stepDur (seqBPM st)"
    and "seqPlay (snd (loop_seq fp now st))"
    and "seqBPM (snd (loop_seq fp now st)) = seqBPM st"
proof -
  let ?st1 = "st\<lparr>lastStepMs := lastStepMs st + stepDur (seqBPM st)\<rparr>"
  have c: "ctl (trigSequencerStep fp (seqStep ?st1) ?st1) = ctl ?st1"
    by (rule ctl_trigSequencerStep)
  note d = ctl_eqD [OF c]
  show "length (fst (loop_seq fp now st)) = 1"
    using assms by (simp add: loop_seq_def Let_def)
  show "lastStepMs (snd (loop_seq fp now st)) = lastStepMs st + stepDur (seqBPM st)"
    using assms d by (simp add: loop_seq_def Let_def)
  show "seqPlay (snd (loop_seq fp now st))"
    using assms d by (simp add: loop_seq_def Let_def)
  show "seqBPM (snd (loop_seq fp now st)) = seqBPM st"
    using assms d by (simp add: loop_seq_def Let_def)
qed

lemma loop_seq_idle:
  assumes "\<not> (seqPlay st \<and> stepDur (seqBPM st) \<le> now - lastStepMs st)"
  shows "loop_seq fp now st = ([], st)"
  using assms by (auto simp: loop_seq_def Let_def)

lemma unat_sub_steps:
  fixes a d :: "32 word"
  assumes "Suc k * unat d \<le> unat a"
  shows "unat d \<le> unat (a - of_nat k * d)"
proof (cases "d = 0")
  case True
  then show ?thesis by simp
next
  case False
  then have d1: "1 \<le> unat d" by (simp add: unat_gt_0 Suc_leI)
  have a: "unat a < 2 ^ 32" using unsigned_less [of a] by simp
  have kd: "k * unat d < 2 ^ 32" using assms a by simp
  have "k \<le> k * unat d" using d1 by simp
  then have "k < 2 ^ 32" using kd by linarith
  then have k: "unat (of_nat k :: 32 word) = k" by (simp add: unat_of_nat)
  have m: "unat (of_nat k * d) = k * unat d"
    using unat_mult_lem [of "of_nat k :: 32 word" d] k kd by simp
  have "of_nat k * d \<le> a" using assms by (simp add: word_le_nat_alt m)
  then have "unat (a - of_nat k * d) = unat a - k * unat d" by (simp add: unat_sub m)
  then show ?thesis using assms by simp
qed

lemma run_loop_count:
  "seqPlay st \<Longrightarrow> length (fst (run_loop fp nows st)) \<le> length nows \<and>
     lastStepMs (snd (run_loop fp nows st)) =
       lastStepMs st + of_nat (length (fst (run_loop fp nows st))) * stepDur (seqBPM st) \<and>
     seqPlay (snd (run_loop fp nows st)) \<and> seqBPM (snd (run_loop fp nows st)) = seqBPM st"
proof (induction nows arbitrary: st)
  case Nil
  then show ?case by simp
next
  case (Cons now nows)
  obtain sent buf st1 where l: "loop fp now st = ((sent, buf), st1)"
    by (metis prod.exhaust)
  obtain rest st2 where r: "run_loop fp nows st1 = (rest, st2)" by (metis prod.exhaust)
  have sent: "sent = fst (loop_seq fp now st)" using loop_sent [of fp now st] l by simp
  have c: "ctl st1 = ctl (snd (loop_seq fp now st))" using ctl_loop [of fp now st] l by simp
  note cd = ctl_eqD [OF c]
  show ?case
  proof (cases "stepDur (seqBPM st) \<le> now - lastStepMs st")
    case True
    note f = loop_seq_fire [OF Cons.prems True, of fp]
    have p: "seqPlay st1" using cd f by simp
    from Cons.IH [OF p] r f cd l sent show ?thesis
      by (simp add: algebra_simps)
  next
    case False
    then have i: "loop_seq fp now st = ([], st)" by (simp add: loop_seq_idle)
    have p: "seqPlay st1" using cd i Cons.prems by simp
    from Cons.IH [OF p] r i cd l sent show ?thesis by simp
  qed
qed

lemma run_loop_on_time:
  "seqPlay st \<Longrightarrow> lastStepMs st = start + of_nat k * stepDur (seqBPM st) \<Longrightarrow>
   on_time (stepDur (seqBPM st)) start (Suc k) nows \<Longrightarrow>
   length (fst (run_loop fp nows st)) = length nows"
proof (induction nows arbitrary: st k)
  case Nil
  then show ?case by simp
next
  case (Cons now nows)
  let ?d = "stepDur (seqBPM st)"
  obtain sent buf st1 where l: "loop fp now st = ((sent, buf), st1)"
    by (metis prod.exhaust)
  obtain rest st2 where r: "run_loop fp nows st1 = (rest, st2)" by (metis prod.exhaust)
  have sent: "sent = fst (loop_seq fp now st)" using loop_sent [of fp now st] l by simp
  have c: "ctl st1 = ctl (snd (loop_seq fp now st))" using ctl_loop [of fp now st] l by simp
  note cd = ctl_eqD [OF c]
  have ot: "Suc k * unat ?d \<le> unat (now - start)" "on_time ?d start (Suc (Suc k)) nows"
    using Cons.prems(3) by simp_all
  have e: "now - lastStepMs st = (now - start) - of_nat k * ?d"
    by (subst Cons.prems(2)) simp
  have "unat ?d \<le> unat (now - lastStepMs st)"
    unfolding e by (rule unat_sub_steps [OF ot(1)])
  then have fire: "?d \<le> now - lastStepMs st" by (simp add: word_le_nat_alt)
  note f = loop_seq_fire [OF Cons.prems(1) fire, of fp]
  have p: "seqPlay st1" using cd f by simp
  have b: "seqBPM st1 = seqBPM st" using cd f by simp
  have ls: "lastStepMs st1 = start + of_nat (Suc k) * stepDur (seqBPM st1)"
    using cd f b Cons.prems(2) by (simp add: algebra_simps)
  have "length (fst (run_loop fp nows st1)) = length nows"
    using Cons.IH [OF p ls] ot(2) b by simp
  then show ?case using l r sent f by simp
qed

text \<open>
  Claim C1, as the code has it. While the sequencer runs, an iteration of the service
  loop fires a step exactly when \<open>now - lastStepMs \<ge> stepDur\<close>, and it fires at most
  one. So \<open>N\<close> iterations fire at most \<open>N\<close> steps, \<open>lastStepMs\<close> ends at its start value
  plus the number of fired steps times the step duration (it is never reset to \<open>now\<close>),
  and all \<open>N\<close> iterations fire when each of them is on time: the \<open>i\<close>-th runs at least
  \<open>i\<close> step durations after the start.
\<close>

theorem C1_step_clock:
  assumes "seqPlay st"
  shows "(fst (fst (loop fp now st)) \<noteq> [] \<longleftrightarrow> stepDur (seqBPM st) \<le> now - lastStepMs st) \<and>
         length (fst (run_loop fp nows st)) \<le> length nows \<and>
         lastStepMs (snd (run_loop fp nows st)) =
           lastStepMs st + of_nat (length (fst (run_loop fp nows st))) * stepDur (seqBPM st) \<and>
         (on_time (stepDur (seqBPM st)) (lastStepMs st) 1 nows \<longrightarrow>
            length (fst (run_loop fp nows st)) = length nows)"
proof -
  have a: "fst (fst (loop fp now st)) \<noteq> [] \<longleftrightarrow> stepDur (seqBPM st) \<le> now - lastStepMs st"
  proof (cases "stepDur (seqBPM st) \<le> now - lastStepMs st")
    case True
    from loop_seq_fire(1) [OF assms True, of fp] have "fst (loop_seq fp now st) \<noteq> []" by auto
    with True show ?thesis by (simp add: loop_sent)
  next
    case False
    then show ?thesis by (simp add: loop_sent loop_seq_idle)
  qed
  have b: "on_time (stepDur (seqBPM st)) (lastStepMs st) 1 nows \<Longrightarrow>
      length (fst (run_loop fp nows st)) = length nows"
    using run_loop_on_time [OF assms, of "lastStepMs st" 0 nows fp] by simp
  from a b run_loop_count [OF assms, of fp nows] show ?thesis by blast
qed

text \<open>The theorem at 120 BPM, with two iterations at 125 ms and 250 ms after the start.\<close>

theorem C1_step_clock_witness:
  "seqPlay (ws_text exact 0 ''SEQ_PLAY'' (engine0 exact)) \<and>
   on_time 125 0 1 [125, 250] \<and>
   length (fst (run_loop exact [125, 250] (ws_text exact 0 ''SEQ_PLAY'' (engine0 exact)))) = 2"
  using C1_step_clock [of "ws_text exact 0 ''SEQ_PLAY'' (engine0 exact)" exact 0 "[125, 250]"]
  by (simp add: seq_play_state engine0_def stepDur_def)

text \<open>
  Claim C1 as stated fails: two iterations whose cumulative elapsed time is exactly two
  step durations (1 ms, then 250 ms after the start at 120 BPM) fire one step, not two,
  because the first iteration comes before the first step boundary and an iteration
  fires at most once.
\<close>

theorem C1_counterexample:
  "stepDur (seqBPM (ws_text exact 0 ''SEQ_PLAY'' (engine0 exact))) = 125 \<and>
   250 - lastStepMs (ws_text exact 0 ''SEQ_PLAY'' (engine0 exact)) = 2 * 125 \<and>
   length (fst (run_loop exact [1, 250] (ws_text exact 0 ''SEQ_PLAY'' (engine0 exact)))) \<noteq> 2"
proof -
  let ?st = "ws_text exact 0 ''SEQ_PLAY'' (engine0 exact)"
  have p: "seqPlay ?st" and l: "lastStepMs ?st = 0" and b: "seqBPM ?st = 120"
    by (simp_all add: seq_play_state engine0_def)
  have d: "stepDur (seqBPM ?st) = 125" by (simp add: b stepDur_def)
  have idle: "loop_seq exact 1 ?st = ([], ?st)"
    by (rule loop_seq_idle) (simp add: d l word_le_nat_alt)
  obtain sent buf st1 where lp: "loop exact 1 ?st = ((sent, buf), st1)" by (metis prod.exhaust)
  have s: "sent = []" using loop_sent [of exact 1 ?st] lp idle by simp
  have "ctl st1 = ctl ?st" using ctl_loop [of exact 1 ?st] lp idle by simp
  then have "seqPlay st1" using ctl_eqD(5) p by blast
  from run_loop_count [OF this, of exact "[250]"]
  have "length (fst (run_loop exact [250] st1)) \<le> 1" by simp
  then have "length (fst (run_loop exact [1, 250] ?st)) \<le> 1"
    using lp s by (simp split: prod.splits)
  then show ?thesis using d l by simp
qed

subsection \<open>Export of an empty pattern\<close>

lemma final_flush_zero:
  assumes "zero_writer hdr n w"
  shows "f_bytes (if wbufPos w > 0 then flushBuf w else w) = hdr @ replicate (4 * n) 0"
proof (cases "wbufPos w > 0")
  case True
  have "zero_writer hdr n (flushBuf w)"
    using assms by (intro flushBuf_zero) (simp_all add: zero_writer_def)
  then show ?thesis using True by (simp add: zero_writer_def flushBuf_def)
next
  case False
  then show ?thesis using assms by (simp add: zero_writer_def)
qed

lemma length_writeWAVHeader: "length (writeWAVHeader n) = 44"
  by (simp add: writeWAVHeader_def le32_def le16_def ascii_def Let_def)

lemma samplesPerStep_nat:
  assumes "40 \<le> bpm" "bpm \<le> 240"
  shows "unat (samplesPerStep_of bpm) = SAMPLE_RATE * (60000 div nat bpm div 4) div 1000"
proof -
  have b: "unat (word_of_int bpm :: 32 word) = nat bpm"
    using assms by (simp add: unat_eq_nat_uint uint_word_of_int)
  have d: "unat (60000 div word_of_int bpm div 4 :: 32 word) = 60000 div nat bpm div 4"
    by (simp add: unat_div b)
  have "60000 div nat bpm \<le> 60000 div 40"
    using assms by (intro div_le_mono2) simp_all
  then have le: "60000 div nat bpm div 4 \<le> 375" by simp
  have m: "unat (of_nat SAMPLE_RATE * (60000 div word_of_int bpm div 4) :: 32 word)
      = SAMPLE_RATE * (60000 div nat bpm div 4)"
    using unat_mult_lem [of "of_nat SAMPLE_RATE :: 32 word" "60000 div word_of_int bpm div 4"] d le
    by (simp add: SAMPLE_RATE_def)
  show ?thesis by (simp add: samplesPerStep_of_def unat_div m)
qed

text \<open>
  Claim C2. With a mounted card and a file that opens, a BPM in \<open>[40, 240]\<close>, a loop
  count \<open>L \<ge> 1\<close> and a pattern of rests and silent drum steps only, the export stores
  a file of exactly \<open>44 + 4 * samplesPerStep * 16 * L\<close> bytes, where \<open>samplesPerStep\<close> is
  \<open>SAMPLE_RATE * (60000 / bpm / 4) / 1000\<close> in integer division, and every byte behind
  the 44 bytes of the header is zero.
\<close>

theorem C2_silent_export:
  assumes "sd_begin sd" "sd_can_open sd (''/'' @ filename)"
    and "40 \<le> seqBPM st" "seqBPM st \<le> 240" "1 \<le> numLoops" "rest_pattern st"
  shows "\<exists>bytes. sd_files (fst (snd (exportPatternToWAV fp filename numLoops sd st))) (''/'' @ filename)
             = Some bytes \<and>
           length bytes = 44 + 4 * (SAMPLE_RATE * (60000 div nat (seqBPM st) div 4) div 1000) * 16 * nat numLoops \<and>
           (\<forall>i. 44 \<le> i \<and> i < length bytes \<longrightarrow> bytes ! i = 0)"
proof -
  let ?path = "''/'' @ filename"
  let ?sd1 = "if sd_files sd ?path \<noteq> None then sd\<lparr>sd_files := (sd_files sd)(?path := None)\<rparr> else sd"
  let ?sps = "samplesPerStep_of (seqBPM st)"
  let ?total = "?sps * of_nat NUM_STEPS * word_of_int numLoops"
  let ?hdr = "writeWAVHeader ?total"
  let ?out0 = "[Exporting filename numLoops (seqBPM st) ?total (?total * 4 div 1024)]"
  let ?w0 = "\<lparr>f_bytes = ?hdr, wbuf = (\<lambda>i. 0), wbufPos = 0\<rparr>"
  let ?st0 = "reset_channels fp st"
  let ?r = "fold (export_loop fp (unat ?sps) numLoops) [0..<nat numLoops] (?out0, ?w0, ?st0)"
  let ?w1 = "fst (snd ?r)"
  let ?w2 = "if wbufPos ?w1 > 0 then flushBuf ?w1 else ?w1"
  let ?n = "unat ?sps * NUM_STEPS * nat numLoops"
  have s0: "silent ?st0" by (rule silent_reset_channels)
  have r0: "rest_pattern ?st0"
    using rest_pattern_ctl [OF ctl_reset_channels] assms(6) by simp
  have z0: "zero_writer ?hdr 0 ?w0" by (simp add: zero_writer_def WBUF_SZ_def)
  from export_loops_silent [OF s0 r0 z0, where k = "unat ?sps" and L = numLoops
      and ls = "[0..<nat numLoops]" and out = ?out0]
  have z1: "zero_writer ?hdr ?n ?w1" by simp
  define bs where "bs = f_bytes ?w2"
  have fb: "bs = ?hdr @ replicate (4 * ?n) 0"
    unfolding bs_def by (rule final_flush_zero [OF z1])
  have e: "sd_files (fst (snd (exportPatternToWAV fp filename numLoops sd st))) ?path = Some bs"
    unfolding bs_def using assms(1,2)
    by (auto simp: exportPatternToWAV_def Let_def split: prod.splits)
  have len: "length bs =
      44 + 4 * (SAMPLE_RATE * (60000 div nat (seqBPM st) div 4) div 1000) * 16 * nat numLoops"
    by (simp add: fb length_writeWAVHeader samplesPerStep_nat [OF assms(3,4)] NUM_STEPS_def)
  have zero: "\<forall>i. 44 \<le> i \<and> i < length bs \<longrightarrow> bs ! i = 0"
    by (auto simp: fb nth_append length_writeWAVHeader)
  from e len zero show ?thesis by blast
qed

text \<open>The theorem for two loops of the start-up pattern at 120 BPM: 705580 bytes.\<close>

theorem C2_silent_export_witness:
  "rest_pattern (engine0 exact) \<and>
   (\<exists>bytes. sd_files (fst (snd (exportPatternToWAV exact ''song1.wav'' 2
        \<lparr>sd_begin = True, sd_can_open = (\<lambda>p. True), sd_files = Map.empty\<rparr> (engine0 exact))))
        ''/song1.wav'' = Some bytes \<and>
      length bytes = 44 + 4 * 5512 * 16 * 2 \<and>
      (\<forall>i. 44 \<le> i \<and> i < length bytes \<longrightarrow> bytes ! i = 0))"
proof -
  have r: "rest_pattern (engine0 exact)"
    by (simp add: rest_pattern_def engine0_def MelStep0_def)
  from C2_silent_export [where sd = "\<lparr>sd_begin = True, sd_can_open = (\<lambda>p. True), sd_files = Map.empty\<rparr>"
      and filename = "''song1.wav''" and st = "engine0 exact" and numLoops = 2 and fp = exact, OF _ _ _ _ _ r]
  show ?thesis using r by (simp add: engine0_def SAMPLE_RATE_def)
qed

subsection \<open>The mixer\<close>

lemma int16_id: "- 32768 \<le> x \<Longrightarrow> x < 32768 \<Longrightarrow> int16 x = x"
  by (simp add: int16_def)

lemma int32_id: "- 2147483648 \<le> x \<Longrightarrow> x < 2147483648 \<Longrightarrow> int32 x = x"
  by (simp add: int32_def)

lemma rounding_between:
  assumes "rounding r" "\<bar>a\<bar> \<le> 2 ^ 24" "\<bar>b\<bar> \<le> 2 ^ 24" "of_int a \<le> x" "x \<le> of_int b"
  shows "of_int a \<le> r x \<and> r x \<le> of_int b"
  using rounding_mono [OF assms(1,4)] rounding_mono [OF assms(1,5)]
    rounding_int [OF assms(1,2)] rounding_int [OF assms(1,3)] by simp

lemma chan_amp_bounds:
  assumes r: "rounding (f32 fp)" and g: "0 \<le> g" "g \<le> 30000" and e: "0 \<le> e" "e \<le> 1"
  shows "0 \<le> chan_amp fp g e \<and> chan_amp fp g e \<le> 6000"
proof -
  have x0: "f32 fp (of_int g) = of_int g" using g by (intro rounding_int [OF r]) simp
  have "of_int 0 \<le> (of_int g :: real) / 5 \<and> (of_int g :: real) / 5 \<le> of_int 6000" using g by simp
  then have x1: "0 \<le> f32 fp (of_int g / 5)" "f32 fp (of_int g / 5) \<le> 6000"
    using rounding_between [OF r, of 0 6000 "of_int g / 5"] by simp_all
  have "f32 fp (of_int g / 5) * e \<le> 6000 * 1" using x1 e by (intro mult_mono) simp_all
  moreover have "0 \<le> f32 fp (of_int g / 5) * e" using x1 e by simp
  ultimately have x2: "0 \<le> f32 fp (f32 fp (of_int g / 5) * e)" "f32 fp (f32 fp (of_int g / 5) * e) \<le> 6000"
    using rounding_between [OF r, of 0 6000 "f32 fp (of_int g / 5) * e"] by simp_all
  have t: "0 \<le> c_trunc (f32 fp (f32 fp (of_int g / 5) * e))"
    "c_trunc (f32 fp (f32 fp (of_int g / 5) * e)) \<le> 6000"
    using x2 by (simp_all add: c_trunc_def floor_le_iff)
  show ?thesis using t by (simp add: chan_amp_def x0 int32_id)
qed

lemma c_trunc_between:
  assumes "of_int a \<le> x" "x \<le> of_int b"
  shows "a \<le> c_trunc x \<and> c_trunc x \<le> b"
proof (cases "0 \<le> x")
  case True
  then show ?thesis using assms by (simp add: c_trunc_def le_floor_iff floor_le_iff)
next
  case False
  then show ?thesis using assms by (simp add: c_trunc_def ceiling_le_iff le_ceiling_iff)
qed


lemma wave_val_bounds:
  assumes r: "rounding (f64 fp)" and a: "0 \<le> amp" "amp \<le> 6000"
    and p: "0 \<le> ph" "ph < f64 fp (2 * PI fp)"
  shows "- amp \<le> wave_val fp w ph amp \<and> wave_val fp w ph amp \<le> amp"
proof -
  have i: "int16 amp = amp" "int16 (- amp) = - amp" using a by (simp_all add: int16_id)
  let ?d = "f64 fp (2 * PI fp)"
  have d: "0 < ?d" using p by simp
  have "0 \<le> ph / ?d" "ph / ?d \<le> 1" using p d by simp_all
  then have q1: "0 \<le> f64 fp (ph / ?d)" "f64 fp (ph / ?d) \<le> 1"
    using rounding_between [OF r, of 0 1 "ph / ?d"] by simp_all
  then have q2: "0 \<le> f64 fp (f64 fp (ph / ?d) * 2)" "f64 fp (f64 fp (ph / ?d) * 2) \<le> 2"
    using rounding_between [OF r, of 0 2 "f64 fp (ph / ?d) * 2"] by simp_all
  then have q3: "- 1 \<le> f64 fp (f64 fp (f64 fp (ph / ?d) * 2) - 1)"
    "f64 fp (f64 fp (f64 fp (ph / ?d) * 2) - 1) \<le> 1"
    using rounding_between [OF r, of "- 1" 1 "f64 fp (f64 fp (ph / ?d) * 2) - 1"] by simp_all
  let ?s = "f64 fp (f64 fp (f64 fp (ph / ?d) * 2) - 1)"
  have m: "of_int (- amp) \<le> ?s * of_int amp" "?s * of_int amp \<le> of_int amp"
  proof -
    have "- 1 * (of_int amp :: real) \<le> ?s * of_int amp"
      using q3(1) a(1) by (intro mult_right_mono) simp_all
    then show "of_int (- amp) \<le> ?s * of_int amp" by simp
    have "?s * of_int amp \<le> 1 * (of_int amp :: real)"
      using q3(2) a(1) by (intro mult_right_mono) simp_all
    then show "?s * of_int amp \<le> of_int amp" by simp
  qed
  have ab: "\<bar>- amp\<bar> \<le> 2 ^ 24" "\<bar>amp\<bar> \<le> 2 ^ 24" using a by simp_all
  note q4 = rounding_between [OF r ab m]
  note t = c_trunc_between [OF conjunct1 [OF q4] conjunct2 [OF q4]]
  have saw: "- amp \<le> int16 (c_trunc (f64 fp (?s * of_int amp)))"
    "int16 (c_trunc (f64 fp (?s * of_int amp))) \<le> amp"
    using t a by (simp_all add: int16_id)
  show ?thesis using i a saw by (simp add: wave_val_def)
qed

lemma synthSample_amp_bound:
  assumes r: "rounding (f32 fp)" "rounding (f64 fp)" and g: "0 \<le> gAmp st" "gAmp st \<le> 30000"
    and b: "in_bounds fp (ch st c)"
  shows "\<bar>fst (synthSample fp c st)\<bar> \<le> chan_amp fp (gAmp st) (envLvl (ch st c)) \<and>
         chan_amp fp (gAmp st) (envLvl (ch st c)) \<le> 6000"
proof -
  let ?k = "ch st c"
  let ?amp = "chan_amp fp (gAmp st) (envLvl ?k)"
  have e: "0 \<le> envLvl ?k" "envLvl ?k \<le> 1" and p: "0 \<le> phase ?k" "phase ?k < f64 fp (2 * PI fp)"
    using b by (simp_all add: in_bounds_def)
  from chan_amp_bounds [OF r(1) g e] have a: "0 \<le> ?amp" "?amp \<le> 6000" by simp_all
  have i: "int16 ?amp = ?amp" "int16 (- ?amp) = - ?amp" using a by (simp_all add: int16_id)
  note w = wave_val_bounds [OF r(2) a p, of "waveType ?k"]
  have "- ?amp \<le> fst (synthSample fp c st) \<and> fst (synthSample fp c st) \<le> ?amp"
    using a i w by (simp add: synthSample_def Let_def)
  then show ?thesis using a by (simp add: abs_le_iff)
qed

lemma synthSample_bounds:
  assumes r: "rounding (f32 fp)" "rounding (f64 fp)" and g: "0 \<le> gAmp st" "gAmp st \<le> 30000"
    and b: "in_bounds fp (ch st c)"
  shows "- 6000 \<le> fst (synthSample fp c st) \<and> fst (synthSample fp c st) \<le> 6000"
  using synthSample_amp_bound [OF assms] by (simp add: abs_le_iff)

lemma fold_synth_bounds:
  assumes r: "rounding (f32 fp)" "rounding (f64 fp)"
  shows "0 \<le> gAmp st \<Longrightarrow> gAmp st \<le> 30000 \<Longrightarrow> distinct cs \<Longrightarrow>
    \<forall>c\<in>set cs. in_bounds fp (ch st c) \<Longrightarrow>
    m - 6000 * int (length cs)
      \<le> fst (fold (\<lambda>c (mix, s). let (v, s') = synthSample fp c s in (mix + v, s')) cs (m, st)) \<and>
    fst (fold (\<lambda>c (mix, s). let (v, s') = synthSample fp c s in (mix + v, s')) cs (m, st))
      \<le> m + 6000 * int (length cs)"
proof (induction cs arbitrary: m st)
  case Nil
  show ?case by simp
next
  case (Cons x xs)
  let ?F = "\<lambda>c (mix, s). let (v, s') = synthSample fp c s in (mix + v, s')"
  obtain v s' where vs: "synthSample fp x st = (v, s')" by (metis prod.exhaust)
  have s: "s' = snd (synthSample fp x st)" and v: "v = fst (synthSample fp x st)" using vs by simp_all
  have bx: "in_bounds fp (ch st x)" using Cons.prems(4) by simp
  from synthSample_bounds [OF r Cons.prems(1,2) bx] have vb: "- 6000 \<le> v" "v \<le> 6000"
    by (simp_all add: v)
  have g: "gAmp s' = gAmp st" by (simp add: s gAmp_synthSample)
  have d: "distinct xs" "x \<notin> set xs" using Cons.prems(3) by simp_all
  have b: "\<forall>c\<in>set xs. in_bounds fp (ch s' c)"
  proof
    fix c assume c: "c \<in> set xs"
    then have "c \<noteq> x" using d(2) by auto
    then have "ch s' c = ch st c" by (simp add: s ch_synthSample_other)
    then show "in_bounds fp (ch s' c)" using Cons.prems(4) c by simp
  qed
  have f: "fold ?F (x # xs) (m, st) = fold ?F xs (m + v, s')" using vs by simp
  from Cons.IH [of s' "m + v"] Cons.prems(1,2) g d(1) b
  have "m + v - 6000 * int (length xs) \<le> fst (fold ?F xs (m + v, s'))"
    "fst (fold ?F xs (m + v, s')) \<le> m + v + 6000 * int (length xs)"
    by simp_all
  then show ?case unfolding f using vb by simp
qed

text \<open>
  Where the code keeps every channel within bounds, the mixer does what its comment
  says. With the global amplitude in \<open>[0, 30000]\<close> and each of the five channels within
  bounds (envelope level in \<open>[0, 1]\<close>, phase within one cycle) the output of a channel
  is at most the amplitude \<open>(int32_t)((float)gAmp / 5 * envLvl)\<close> of that channel in
  magnitude, which is at most 6000; the sum of a frame lies within \<open>[-32767, 32767]\<close>
  and the clamp returns it unchanged. It holds for every monotone rounding that leaves
  the values of the format and the integers up to \<open>2^24\<close> alone.
\<close>

lemma mix_within_range:
  assumes "rounding (f32 fp)" "rounding (f64 fp)"
    and "0 \<le> gAmp st" "gAmp st \<le> 30000"
    and "\<forall>c<NUM_CH. in_bounds fp (ch st c)"
  shows "(\<forall>c<NUM_CH. \<bar>fst (synthSample fp c st)\<bar> \<le> chan_amp fp (gAmp st) (envLvl (ch st c)) \<and>
            chan_amp fp (gAmp st) (envLvl (ch st c)) \<le> 6000) \<and>
         - 32767 \<le> fst (mixSum fp st) \<and> fst (mixSum fp st) \<le> 32767 \<and>
         fst (mixFrame fp st) = fst (mixSum fp st)"
proof -
  have one: "\<bar>fst (synthSample fp c st)\<bar> \<le> chan_amp fp (gAmp st) (envLvl (ch st c)) \<and>
      chan_amp fp (gAmp st) (envLvl (ch st c)) \<le> 6000" if "c < NUM_CH" for c
    using synthSample_amp_bound [OF assms(1,2,3,4), of c] assms(5) that by simp
  have b: "\<forall>c\<in>set [0..<NUM_CH]. in_bounds fp (ch st c)" using assms(5) by simp
  from fold_synth_bounds [OF assms(1,2,3,4) _ b, of 0]
  have s: "- 30000 \<le> fst (mixSum fp st)" "fst (mixSum fp st) \<le> 30000"
    by (simp_all add: mixSum_def NUM_CH_def)
  then have "fst (mixFrame fp st) = fst (mixSum fp st)"
    by (cases "mixSum fp st") (simp add: mixFrame_def constrain_def int16_id)
  with one s show ?thesis by simp
qed

text \<open>The hypotheses hold of a live sawtooth note of 440 Hz at the start-up volume.\<close>

lemma mix_within_range_example:
  "rounding (f32 exact) \<and> rounding (f64 exact) \<and>
   gAmp (trigNote exact CH_LEAD 440 1 (engine0 exact)) = 10000 \<and>
   in_bounds exact (ch (trigNote exact CH_LEAD 440 1 (engine0 exact)) CH_LEAD) \<and>
   - 32767 \<le> fst (mixSum exact (trigNote exact CH_LEAD 440 1 (engine0 exact))) \<and>
   fst (mixSum exact (trigNote exact CH_LEAD 440 1 (engine0 exact))) \<le> 32767 \<and>
   fst (mixFrame exact (trigNote exact CH_LEAD 440 1 (engine0 exact))) =
     fst (mixSum exact (trigNote exact CH_LEAD 440 1 (engine0 exact)))"
proof -
  let ?st = "trigNote exact CH_LEAD 440 1 (engine0 exact)"
  have r: "rounding (f32 exact)" "rounding (f64 exact)"
    by (simp_all add: rounding_def exact_def mono_def)
  have g: "gAmp ?st = 10000" by (simp add: trigNote_def engine0_def)
  have b: "\<forall>c<NUM_CH. in_bounds exact (ch ?st c)"
    by (simp add: in_bounds_def trigNote_def engine0_def Channel0_def exact_def PI_def)
  from mix_within_range [OF r _ _ b] r g b show ?thesis
    by (simp add: CH_LEAD_def NUM_CH_def)
qed

lemma loud_song_eq:
  "loud_song = (engine0 exact)\<lparr>gAmp := 30000,
     melPat := (\<lambda>t s. if s = 0 \<and> (t = 0 \<or> t = 1) then \<lparr>freq = 88200, wave = 1\<rparr> else MelStep0),
     seqPlay := True\<rparr>"
  by (simp add: loud_song_def ws_text_def onWsEvent_def seq_set_def parse_defs constrain_def Let_def
      NUM_MEL_TRK_def NUM_STEPS_def exact_def int32_def engine0_def fun_eq_iff)

lemma loud_start:
  "gAmp (snd (loop_seq exact 125 loud_song)) = 30000"
  "ch (snd (loop_seq exact 125 loud_song)) 0 = \<lparr>phase = 0, curFreq = 88200, waveType = 1, envLvl = 1,
     envDcy = 9998 / 10000, active = True, isNoise = False, pitchMul = 1\<rparr>"
  "ch (snd (loop_seq exact 125 loud_song)) 1 = \<lparr>phase = 0, curFreq = 88200, waveType = 1, envLvl = 1,
     envDcy = 9998 / 10000, active = True, isNoise = False, pitchMul = 1\<rparr>"
  "ch (snd (loop_seq exact 125 loud_song)) 2 = Channel0 exact"
  "ch (snd (loop_seq exact 125 loud_song)) 3 = Channel0 exact"
  "ch (snd (loop_seq exact 125 loud_song)) 4 = Channel0 exact"
  by (simp_all add: loud_song_eq loop_seq_def stepDur_def Let_def engine0_def trigSequencerStep_def
      trigMelTrack_def mel_tracks trig_defs ch_nums exact_def word_le_nat_alt Channel0_def)

lemma loud_frame_ch:
  "gAmp loud_frame = 30000"
  "ch loud_frame 0 = \<lparr>phase = 4 * PI exact, curFreq = 88200, waveType = 1,
     envLvl = 9998 / 10000 * (9998 / 10000),
     envDcy = 9998 / 10000, active = True, isNoise = False, pitchMul = 1\<rparr>"
  "ch loud_frame 1 = \<lparr>phase = 4 * PI exact, curFreq = 88200, waveType = 1,
     envLvl = 9998 / 10000 * (9998 / 10000),
     envDcy = 9998 / 10000, active = True, isNoise = False, pitchMul = 1\<rparr>"
  "\<not> active (ch loud_frame 2)" "\<not> active (ch loud_frame 3)" "\<not> active (ch loud_frame 4)"
proof -
  show "gAmp loud_frame = 30000"
    using ctl_eqD(1) [OF ctl_frames, of exact 2 "snd (loop_seq exact 125 loud_song)"]
    by (simp add: loud_frame_def loud_start)
  have n: "(0::nat) < NUM_CH" "(1::nat) < NUM_CH" "(2::nat) < NUM_CH" "(3::nat) < NUM_CH" "(4::nat) < NUM_CH"
    by (simp_all add: NUM_CH_def)
  have two: "\<And>f x. (f ^^ 2) x = f (f x)" by (simp add: numeral_2_eq_2)
  have pi: "0 < PI exact" by (simp add: PI_def exact_def)
  have inc: "f64 exact (f64 exact (f64 exact (2 * PI exact) * 88200) / of_nat SAMPLE_RATE) = 4 * PI exact"
    by (simp add: exact_def SAMPLE_RATE_def)
  have p1: "next_phase exact 0 88200 = 2 * PI exact"
    using pi by (simp add: next_phase_def Let_def inc) (simp add: exact_def)
  have p2: "next_phase exact (2 * PI exact) 88200 = 4 * PI exact"
    using pi by (simp add: next_phase_def Let_def inc) (simp add: exact_def)
  let ?n = "\<lparr>phase = 0, curFreq = 88200, waveType = 1, envLvl = 1,
     envDcy = 9998 / 10000, active = True, isNoise = False, pitchMul = 1\<rparr>"
  have st: "chan_step exact (chan_step exact ?n) = \<lparr>phase = 4 * PI exact, curFreq = 88200, waveType = 1,
     envLvl = 9998 / 10000 * (9998 / 10000),
     envDcy = 9998 / 10000, active = True, isNoise = False, pitchMul = 1\<rparr>"
    by (simp add: chan_step_def p1 p2 next_freq_def) (simp add: exact_def)
  have "ch loud_frame 0 = chan_step exact (chan_step exact ?n)"
    by (simp only: loud_frame_def ch_frames [OF n(1)] two loud_start)
  then show "ch loud_frame 0 = \<lparr>phase = 4 * PI exact, curFreq = 88200, waveType = 1,
     envLvl = 9998 / 10000 * (9998 / 10000),
     envDcy = 9998 / 10000, active = True, isNoise = False, pitchMul = 1\<rparr>"
    by (simp only: st)
  have "ch loud_frame 1 = chan_step exact (chan_step exact ?n)"
    by (simp only: loud_frame_def ch_frames [OF n(2)] two loud_start)
  then show "ch loud_frame 1 = \<lparr>phase = 4 * PI exact, curFreq = 88200, waveType = 1,
     envLvl = 9998 / 10000 * (9998 / 10000),
     envDcy = 9998 / 10000, active = True, isNoise = False, pitchMul = 1\<rparr>"
    by (simp only: st)
  show "\<not> active (ch loud_frame 2)" "\<not> active (ch loud_frame 3)" "\<not> active (ch loud_frame 4)"
    by (simp_all add: loud_frame_def ch_frames [OF n(3)] ch_frames [OF n(4)] ch_frames [OF n(5)]
        two loud_start chan_step_def Channel0_def)
qed

lemma loud_amp: "chan_amp exact 30000 (24990001 / 25000000) = 5997"
  by (simp add: chan_amp_def exact_sel c_trunc_def int32_def)

lemma loud_val: "wave_val exact 1 (4 * PI exact) 5997 = 17991"
proof -
  have "0 < PI exact" by (simp add: PI_def exact_def)
  then have "f64 exact (f64 exact (f64 exact (4 * PI exact / f64 exact (2 * PI exact)) * 2) - 1) = 3"
    by (simp add: exact_def)
  then show ?thesis by (simp add: wave_val_def c_trunc_def int16_def) (simp add: exact_def)
qed

lemma loud_mix: "fst (mixSum exact loud_frame) = 35982"
proof -
  note c = loud_frame_ch [unfolded One_nat_def]
  show ?thesis
    by (simp add: mixSum_def channels synthSample_def Let_def c exact_sel loud_amp loud_val)
qed

text \<open>
  At the state \<open>loud_frame\<close> the envelope level of the lead is below 1 and its sample
  is 17991, three times its amplitude 5997 and above a fifth of the global amplitude.
\<close>

lemma loud_lead:
  "envLvl (ch loud_frame CH_LEAD) \<le> 1 \<and> fst (synthSample exact CH_LEAD loud_frame) = 17991"
proof -
  note c = loud_frame_ch [unfolded One_nat_def]
  show ?thesis
    by (simp add: synthSample_def Let_def ch_nums c exact_sel loud_amp loud_val)
qed

text \<open>
  Claim C3 at the state \<open>loud_frame\<close>, reached by \<open>VOL:30000\<close>, \<open>SEQ_SET:0,0,88200,1\<close>,
  \<open>SEQ_SET:1,0,88200,1\<close>, \<open>SEQ_PLAY\<close> and the service loop at 125 ms. The phase advance of
  a note of 88200 Hz is two cycles a sample and the wrap takes off one, so after two
  frames the phase of lead and bass is two cycles; the sawtooth then gives three times
  the channel amplitude 5997. The global amplitude is within \<open>[0, 30000]\<close>, the sum of
  the frame is 35982, above 32767, and the clamp of the mixer changes it, to 32767.
\<close>

theorem C3_saw_overflow:
  "0 \<le> gAmp loud_frame \<and> gAmp loud_frame \<le> 30000 \<and>
   fst (mixSum exact loud_frame) = 35982 \<and>
   fst (mixFrame exact loud_frame) = 32767"
proof -
  have "fst (mixFrame exact loud_frame) = 32767"
    using loud_mix by (cases "mixSum exact loud_frame") (simp add: mixFrame_def constrain_def int16_def)
  then show ?thesis by (simp add: loud_mix loud_frame_ch(1))
qed

subsection \<open>The kick sweep\<close>

lemma rel_error_bounds:
  assumes "rel_error r" "1 / 2 ^ 126 \<le> x" "x \<le> 2 ^ 127"
  shows "x * (1 - 1 / 2 ^ 24) \<le> r x" "r x \<le> x * (1 + 1 / 2 ^ 24)"
proof -
  have "(0::real) < 1 / 2 ^ 126" by simp
  then have p: "0 < x" using assms(2) by linarith
  then have "\<bar>r x - x\<bar> \<le> x / 2 ^ 24"
    using assms unfolding rel_error_def by (metis abs_of_pos)
  then have "- (x / 2 ^ 24) \<le> r x - x" "r x - x \<le> x / 2 ^ 24"
    by linarith+
  then show "x * (1 - 1 / 2 ^ 24) \<le> r x" "r x \<le> x * (1 + 1 / 2 ^ 24)"
    by (simp_all add: algebra_simps)
qed


lemma kick_consts:
  assumes "rel_error r"
  shows "9991 / 10000 * (1 - 1 / 2 ^ 24) \<le> r (9991 / 10000)"
    and "r (9991 / 10000) \<le> 9991 / 10000 * (1 + 1 / 2 ^ 24)"
    and "9997 / 10000 * (1 - 1 / 2 ^ 24) \<le> r (9997 / 10000)"
    and "r (9997 / 10000) \<le> 9997 / 10000 * (1 + 1 / 2 ^ 24)"
    and "r (1 / 1000) \<le> 1 / 1000 * (1 + 1 / 2 ^ 24)"
proof -
  have a: "(1::real) / 2 ^ 126 \<le> 9991 / 10000" "(9991::real) / 10000 \<le> 2 ^ 127" by simp_all
  have b: "(1::real) / 2 ^ 126 \<le> 9997 / 10000" "(9997::real) / 10000 \<le> 2 ^ 127" by simp_all
  have c: "(1::real) / 2 ^ 126 \<le> 1 / 1000" "(1::real) / 1000 \<le> 2 ^ 127" by simp_all
  show "9991 / 10000 * (1 - 1 / 2 ^ 24) \<le> r (9991 / 10000)"
    "r (9991 / 10000) \<le> 9991 / 10000 * (1 + 1 / 2 ^ 24)"
    using rel_error_bounds [OF assms a] by simp_all
  show "9997 / 10000 * (1 - 1 / 2 ^ 24) \<le> r (9997 / 10000)"
    "r (9997 / 10000) \<le> 9997 / 10000 * (1 + 1 / 2 ^ 24)"
    using rel_error_bounds [OF assms b] by simp_all
  show "r (1 / 1000) \<le> 1 / 1000 * (1 + 1 / 2 ^ 24)"
    using rel_error_bounds [OF assms c] by simp
qed

lemma kick_sweep_step:
  assumes re: "rel_error (f32 fp)" and k: "kick_sweep fp k"
  shows "curFreq (chan_step fp k) < curFreq k"
    and "kick_sweep fp (chan_step fp k) \<or> kick_floor fp (chan_step fp k)"
    and "kick_sweep fp (chan_step fp k) \<longrightarrow> curFreq (chan_step fp k) \<le> curFreq k * (9992 / 10000)"
proof -
  define f e m d where "f = curFreq k" and "e = envLvl k"
    and "m = f32 fp (9991 / 10000)" and "d = f32 fp (9997 / 10000)"
  define u l :: real where "u = 1 + 1 / 2 ^ 24" and "l = 1 - 1 / 2 ^ 24"
  have ul: "0 < l" "l < 1" "1 < u" "9991 / 10000 * u * u \<le> 9992 / 10000"
    "9991 / 10000 * u * u \<le> 9997 / 10000 * l * l" "9997 / 10000 * u * u \<le> 1"
    "999 / 1000 \<le> 9991 / 10000 * l" "999 / 1000 \<le> 9997 / 10000 * l" "1 / 1000 * u < 3 / 20"
    "9991 / 10000 * u < 1" "9997 / 10000 * u \<le> 1"
    by (simp_all add: u_def l_def)
  have kk: "active k" "\<not> isNoise k" "pitchMul k = m" "envDcy k = d" "30 < f" "f \<le> 200"
    "f \<le> 200 * e" "e \<le> 1"
    using k by (simp_all add: kick_sweep_def f_def e_def m_def d_def)
  note c = kick_consts [OF re]
  have m: "9991 / 10000 * l \<le> m" "m \<le> 9991 / 10000 * u"
    using c(1,2) by (simp_all add: m_def u_def l_def)
  have d: "9997 / 10000 * l \<le> d" "d \<le> 9997 / 10000 * u"
    using c(3,4) by (simp_all add: d_def u_def l_def)
  have thr: "f32 fp (1 / 1000) < 3 / 20" using c(5) ul(9) by (simp add: u_def)
  have e: "3 / 20 < e" using kk(5,7) by simp
  have m1: "999 / 1000 \<le> m" "m < 1" using m ul(7,10) by linarith+
  have d1: "999 / 1000 \<le> d" "d \<le> 1" using d ul(8,11) by linarith+
  have go: "\<not> (\<not> active k \<or> envLvl k < f32 fp (1 / 1000))"
    using kk(1) e thr by (simp add: e_def)
  \<comment> \<open>the new frequency\<close>
  have fm: "29 \<le> f * m" "f * m \<le> f"
  proof -
    have "30 * (999 / 1000) \<le> f * m" using kk(5) m1(1) by (intro mult_mono) simp_all
    then show "29 \<le> f * m" by simp
    have "f * m \<le> f * 1" using kk(5) m1(2) by (intro mult_left_mono) simp_all
    then show "f * m \<le> f" by simp
  qed
  have fr: "(1::real) / 2 ^ 126 \<le> f * m" "f * m \<le> 2 ^ 127" using fm kk(6) by simp_all
  have f1: "f32 fp (f * m) \<le> f * m * u"
    using rel_error_bounds(2) [OF re fr] by (simp add: u_def)
  have "f * m * u \<le> f * (9991 / 10000 * u) * u"
    using kk(5) m(2) ul(3) by (intro mult_right_mono mult_left_mono) simp_all
  then have f2: "f32 fp (f * m) \<le> f * (9991 / 10000 * u * u)" using f1 by (simp add: mult.assoc)
  have "f * (9991 / 10000 * u * u) \<le> f * (9992 / 10000)"
    using kk(5) ul(4) by (intro mult_left_mono) simp_all
  then have f3: "f32 fp (f * m) \<le> f * (9992 / 10000)" using f2 by linarith
  have f4: "f32 fp (f * m) < f" using f3 kk(5) by simp
  \<comment> \<open>the new envelope level\<close>
  have ed: "1 / 10 \<le> e * d" "e * d \<le> d"
  proof -
    have "3 / 20 * (999 / 1000) \<le> e * d" using e d1(1) by (intro mult_mono) simp_all
    then show "1 / 10 \<le> e * d" by simp
    have "e * d \<le> 1 * d" using kk(8) d1(1) by (intro mult_right_mono) simp_all
    then show "e * d \<le> d" by simp
  qed
  have er: "(1::real) / 2 ^ 126 \<le> e * d" "e * d \<le> 2 ^ 127" using ed d1(2) by simp_all
  have e1: "e * d * l \<le> f32 fp (e * d)" "f32 fp (e * d) \<le> e * d * u"
    using rel_error_bounds [OF re er] by (simp_all add: u_def l_def)
  have "e * d * u \<le> (9997 / 10000 * u) * u"
    using ed(2) d(2) ul(3) by (intro mult_right_mono) simp_all
  then have e2: "f32 fp (e * d) \<le> 1" using e1(2) ul(6) by simp
  have "e * (9997 / 10000 * l) * l \<le> e * d * l"
    using e d(1) ul(1) by (intro mult_right_mono mult_left_mono) simp_all
  then have e3: "e * (9997 / 10000 * l * l) \<le> f32 fp (e * d)" using e1(1) by (simp add: mult.assoc)
  have "200 * e * (9991 / 10000 * u * u) \<le> 200 * e * (9997 / 10000 * l * l)"
    using e ul(5) by (intro mult_left_mono) simp_all
  then have e4: "200 * e * (9991 / 10000 * u * u) \<le> 200 * f32 fp (e * d)" using e3 by simp
  have "f * (9991 / 10000 * u * u) \<le> 200 * e * (9991 / 10000 * u * u)"
    using kk(7) ul(3) by (intro mult_right_mono) simp_all
  then have f5: "f32 fp (f * m) \<le> 200 * f32 fp (e * d)" using f2 e4 by linarith
  \<comment> \<open>the step\<close>
  have st: "chan_step fp k = k\<lparr>phase := next_phase fp (phase k) f,
      curFreq := (if f32 fp (f * m) < 30 then 30 else f32 fp (f * m)),
      envLvl := f32 fp (e * d)\<rparr>"
    using go kk(2,3,4) m1(2)
    by (simp add: chan_step_def next_freq_def Let_def f_def e_def)
  show "curFreq (chan_step fp k) < curFreq k"
    using f4 kk(5) by (simp add: st f_def [symmetric])
  show "kick_sweep fp (chan_step fp k) \<or> kick_floor fp (chan_step fp k)"
    using kk f4 f5 e2 by (auto simp: st kick_sweep_def kick_floor_def m_def d_def)
  show "kick_sweep fp (chan_step fp k) \<longrightarrow> curFreq (chan_step fp k) \<le> curFreq k * (9992 / 10000)"
    using f3 by (simp add: st kick_sweep_def f_def [symmetric])
qed


lemma kick_floor_step:
  assumes re: "rel_error (f32 fp)" and k: "kick_floor fp k"
  shows "kick_floor fp (chan_step fp k)"
proof -
  define m where "m = f32 fp (9991 / 10000)"
  define u l :: real where "u = 1 + 1 / 2 ^ 24" and "l = 1 - 1 / 2 ^ 24"
  have ul: "1 < u" "999 / 1000 \<le> 9991 / 10000 * l" "9991 / 10000 * u < 1"
    "30 * (9991 / 10000 * u * u) < 30"
    by (simp_all add: u_def l_def)
  note c = kick_consts [OF re]
  have m: "9991 / 10000 * l \<le> m" "m \<le> 9991 / 10000 * u"
    using c(1,2) by (simp_all add: m_def u_def l_def)
  have m1: "999 / 1000 \<le> m" "m < 1" using m ul(2,3) by linarith+
  have fr: "(1::real) / 2 ^ 126 \<le> 30 * m" "30 * m \<le> 2 ^ 127" using m1 by simp_all
  have "f32 fp (30 * m) \<le> 30 * m * u"
    using rel_error_bounds(2) [OF re fr] by (simp add: u_def)
  also have "30 * m * u \<le> 30 * (9991 / 10000 * u) * u"
    using m(2) ul(1) by (intro mult_right_mono mult_left_mono) simp_all
  finally have "f32 fp (30 * m) < 30" using ul(4) by (simp add: mult.assoc)
  then have "next_freq fp 30 m = 30" using m1(2) by (simp add: next_freq_def Let_def)
  then show ?thesis
    using k by (simp add: chan_step_def kick_floor_def m_def)
qed

lemma kick_run:
  assumes re: "rel_error (f32 fp)" and k0: "kick_sweep fp k0"
  shows "\<exists>N. (\<forall>n<N. kick_sweep fp ((chan_step fp ^^ n) k0)) \<and>
             (\<forall>n\<ge>N. kick_floor fp ((chan_step fp ^^ n) k0))"
proof -
  let ?K = "\<lambda>n. (chan_step fp ^^ n) k0"
  have either: "kick_sweep fp (?K n) \<or> kick_floor fp (?K n)" for n
  proof (induction n)
    case 0
    show ?case using k0 by simp
  next
    case (Suc n)
    then show ?case
      using kick_sweep_step(2) [OF re, of "?K n"] kick_floor_step [OF re, of "?K n"] by auto
  qed
  have stay: "kick_floor fp (?K n) \<Longrightarrow> kick_floor fp (?K (n + j))" for n j
  proof (induction j)
    case 0
    then show ?case by simp
  next
    case (Suc j)
    then show ?case using kick_floor_step [OF re, of "?K (n + j)"] by simp
  qed
  have ex: "\<exists>n. kick_floor fp (?K n)"
  proof (rule ccontr)
    assume "\<not> ?thesis"
    then have sw: "kick_sweep fp (?K n)" for n using either by blast
    have bound: "curFreq (?K n) \<le> 200 * (9992 / 10000) ^ n" for n
    proof (induction n)
      case 0
      show ?case using k0 by (simp add: kick_sweep_def)
    next
      case (Suc n)
      have "curFreq (?K (Suc n)) \<le> curFreq (?K n) * (9992 / 10000)"
        using kick_sweep_step(3) [OF re sw [of n]] sw [of "Suc n"] by simp
      also have "\<dots> \<le> 200 * (9992 / 10000) ^ n * (9992 / 10000)"
        using Suc by (intro mult_right_mono) simp_all
      finally show ?case by simp
    qed
    obtain n where n: "((9992::real) / 10000) ^ n < 3 / 20"
      using real_arch_pow_inv [of "3 / 20" "9992 / 10000"] by auto
    have "curFreq (?K n) < 30" using bound [of n] n by simp
    moreover have "30 < curFreq (?K n)" using sw [of n] by (simp add: kick_sweep_def)
    ultimately show False by simp
  qed
  define N where "N = (LEAST n. kick_floor fp (?K n))"
  have fN: "kick_floor fp (?K N)" unfolding N_def using ex by (rule LeastI_ex)
  have before: "kick_sweep fp (?K n)" if "n < N" for n
  proof -
    have "\<not> kick_floor fp (?K n)" using that not_less_Least unfolding N_def by blast
    then show ?thesis using either [of n] by simp
  qed
  have after: "kick_floor fp (?K n)" if "N \<le> n" for n
    using stay [OF fN, of "n - N"] that by simp
  from before after show ?thesis by blast
qed

text \<open>
  The kick channel under operations that are free of the kick: only its own rendered
  samples move it, each by one \<open>chan_step\<close>.
\<close>

lemma apply_op_kick:
  assumes "kick_free x"
  shows "ch (apply_op fp x st) CH_KICK =
    (if x = Render CH_KICK then chan_step fp (ch st CH_KICK) else ch st CH_KICK)"
proof (cases x)
  case (Render c)
  then show ?thesis by (simp add: ch_synthSample_same ch_synthSample_other)
next
  case (Release c)
  then show ?thesis using assms by (simp add: kick_free_def releaseNote_def)
next
  case (TrigNote c f w)
  then show ?thesis using assms by (simp add: kick_free_def trigNote_def)
next
  case TrigKick
  then show ?thesis using assms by (simp add: kick_free_def)
next
  case TrigSnare
  then show ?thesis by (simp add: trigSnare_def ch_nums)
next
  case TrigHat
  then show ?thesis by (simp add: trigHat_def ch_nums)
qed

lemma after_ops_kick:
  "\<forall>x\<in>set ops. kick_free x \<Longrightarrow>
   ch (after_ops fp ops st) CH_KICK = (chan_step fp ^^ count_list ops (Render CH_KICK)) (ch st CH_KICK)"
proof (induction ops arbitrary: st)
  case Nil
  show ?case by (simp add: after_ops_def)
next
  case (Cons x xs)
  have x: "kick_free x" and xs: "\<forall>x\<in>set xs. kick_free x" using Cons.prems by simp_all
  have "ch (after_ops fp (x # xs) st) CH_KICK = ch (after_ops fp xs (apply_op fp x st)) CH_KICK"
    by (simp add: after_ops_def)
  also have "\<dots> = (chan_step fp ^^ count_list xs (Render CH_KICK)) (ch (apply_op fp x st) CH_KICK)"
    by (rule Cons.IH [OF xs])
  also have "\<dots> = (chan_step fp ^^ count_list (x # xs) (Render CH_KICK)) (ch st CH_KICK)"
    by (simp add: apply_op_kick [OF x] funpow_swap1)
  finally show ?case .
qed

lemma kick_either:
  assumes re: "rel_error (f32 fp)" and k0: "kick_sweep fp k0"
  shows "kick_sweep fp ((chan_step fp ^^ n) k0) \<or> kick_floor fp ((chan_step fp ^^ n) k0)"
proof (induction n)
  case 0
  show ?case using k0 by simp
next
  case (Suc n)
  then show ?case
    using kick_sweep_step(2) [OF re, of "(chan_step fp ^^ n) k0"]
      kick_floor_step [OF re, of "(chan_step fp ^^ n) k0"] by auto
qed

text \<open>
  How the operation sequences relate to the rest of the model: the engine after a
  sequence is the last engine of the run of claim C6, and a frame of the mixer is the
  sequence that renders the channels 0 to 4. So over uninterrupted frames the sweep
  falls for a number of frames and is on the floor from then on.
\<close>

lemma after_ops_run_ops: "after_ops fp ops st = last (st # run_ops fp ops st)"
  by (induction ops arbitrary: st) (simp_all add: after_ops_def)

lemma mixSum_after_ops: "snd (mixSum fp st) = after_ops fp (map Render [0..<NUM_CH]) st"
proof -
  have "snd (fold (\<lambda>c (mix, s). let (v, s') = synthSample fp c s in (mix + v, s')) cs (m, st))
      = fold (apply_op fp) (map Render cs) st" for cs m
    by (induction cs arbitrary: m st) (simp_all split: prod.splits)
  then show ?thesis by (simp add: mixSum_def after_ops_def)
qed

lemma kick_sweep_frames:
  assumes "rel_error (f32 fp)"
  shows "curFreq (ch (trigKick fp st) CH_KICK) = 200 \<and>
         pitchMul (ch (trigKick fp st) CH_KICK) = f32 fp (9991 / 10000) \<and>
         (\<exists>N. (\<forall>n<N. curFreq (ch (frames fp (Suc n) (trigKick fp st)) CH_KICK)
                      < curFreq (ch (frames fp n (trigKick fp st)) CH_KICK)) \<and>
              (\<forall>n\<ge>N. curFreq (ch (frames fp n (trigKick fp st)) CH_KICK) = 30))"
proof -
  let ?k0 = "ch (trigKick fp st) CH_KICK"
  have c: "CH_KICK < NUM_CH" by (simp add: CH_KICK_def NUM_CH_def)
  have k0: "kick_sweep fp ?k0" by (simp add: kick_sweep_def trigKick_def)
  from kick_run [OF assms k0] obtain N where
    N: "\<forall>n<N. kick_sweep fp ((chan_step fp ^^ n) ?k0)" "\<forall>n\<ge>N. kick_floor fp ((chan_step fp ^^ n) ?k0)"
    by blast
  have "curFreq (ch (frames fp (Suc n) (trigKick fp st)) CH_KICK)
      < curFreq (ch (frames fp n (trigKick fp st)) CH_KICK)" if "n < N" for n
    using kick_sweep_step(1) [OF assms, of "(chan_step fp ^^ n) ?k0"] N(1) that
    by (simp add: ch_frames [OF c])
  moreover have "curFreq (ch (frames fp n (trigKick fp st)) CH_KICK) = 30" if "N \<le> n" for n
    using N(2) that by (simp add: ch_frames [OF c] kick_floor_def)
  moreover have "curFreq ?k0 = 200" "pitchMul ?k0 = f32 fp (9991 / 10000)"
    by (simp_all add: trigKick_def)
  ultimately show ?thesis by blast
qed

text \<open>
  The export of a pattern of rests: it resets the five channels, no step triggers, and
  silent frames leave the engine as it is; the kick channel ends as the reset made it.
\<close>

lemma trigSequencerStep_rest_kick:
  assumes "rest_pattern st" "s < NUM_STEPS"
  shows "ch (trigSequencerStep fp s st) CH_KICK = ch st CH_KICK"
proof -
  have d: "\<not> drmPat st 0 s" "\<not> drmPat st 1 s" "\<not> drmPat st 2 s"
    using assms by (simp_all add: rest_pattern_def NUM_DRM_TRK_def)
  show ?thesis
    using d by (simp add: trigSequencerStep_def trigMelTrack_def mel_tracks Let_def trig_defs ch_nums)
qed

lemma export_frames_state: "silent st \<Longrightarrow> snd ((export_frame fp ^^ k) (w, st)) = st"
proof (induction k)
  case 0
  show ?case by simp
next
  case (Suc k)
  obtain w' where p: "(export_frame fp ^^ k) (w, st) = (w', st)"
    using Suc by (metis prod.collapse)
  have "mixFrame fp st = (0, st)" using Suc.prems by (simp add: mixFrame_silent)
  then show ?case using p by (simp add: export_frame_def Let_def)
qed

lemma export_step_state:
  assumes "silent st" "rest_pattern st" "s < NUM_STEPS"
  shows "snd (export_step fp k s (w, st)) = trigSequencerStep fp s st"
  using trigSequencerStep_rest [OF assms, where fp = fp]
  by (simp add: export_step_def export_frames_state)

lemma export_steps_rest_kick:
  assumes "\<forall>s\<in>set ss. s < NUM_STEPS"
  shows "silent st \<Longrightarrow> rest_pattern st \<Longrightarrow>
         silent (snd (fold (export_step fp k) ss (w, st))) \<and>
         rest_pattern (snd (fold (export_step fp k) ss (w, st))) \<and>
         ch (snd (fold (export_step fp k) ss (w, st))) CH_KICK = ch st CH_KICK"
  using assms
proof (induction ss arbitrary: w st)
  case Nil
  then show ?case by simp
next
  case (Cons s ss)
  obtain w' st' where e: "export_step fp k s (w, st) = (w', st')" by (metis prod.exhaust)
  have s: "s < NUM_STEPS" and ss: "\<forall>s\<in>set ss. s < NUM_STEPS" using Cons.prems(3) by simp_all
  have st': "st' = trigSequencerStep fp s st"
    using export_step_state [OF Cons.prems(1,2) s, where fp = fp and k = k and w = w] e by simp
  from trigSequencerStep_rest [OF Cons.prems(1,2) s, where fp = fp]
  have i: "silent st'" "rest_pattern st'" by (simp_all add: st')
  have k: "ch st' CH_KICK = ch st CH_KICK"
    by (simp add: st' trigSequencerStep_rest_kick [OF Cons.prems(2) s])
  from Cons.IH [OF i ss, where w = w'] e k show ?case by simp
qed

lemma export_loops_rest_kick:
  "silent st \<Longrightarrow> rest_pattern st \<Longrightarrow>
   ch (snd (snd (fold (export_loop fp k L) ls (out, w, st)))) CH_KICK = ch st CH_KICK"
proof (induction ls arbitrary: out w st)
  case Nil
  then show ?case by simp
next
  case (Cons lp ls)
  obtain out' w' st' where e: "export_loop fp k L lp (out, w, st) = (out', w', st')"
    by (metis prod.exhaust)
  have all: "\<forall>s\<in>set [0..<NUM_STEPS]. s < NUM_STEPS" by simp
  have st': "st' = snd (fold (export_step fp k) [0..<NUM_STEPS] (w, st))"
    using e by (simp add: export_loop_def split: prod.splits)
  from export_steps_rest_kick [OF all Cons.prems, where fp = fp and k = k and w = w]
  have i: "silent st'" "rest_pattern st'" and k: "ch st' CH_KICK = ch st CH_KICK"
    by (simp_all add: st')
  from Cons.IH [OF i, where out = out' and w = w'] e k show ?case by simp
qed

lemma export_rest_kick:
  assumes "sd_begin sd" "sd_can_open sd (''/'' @ filename)" "rest_pattern st"
  shows "ch (snd (snd (exportPatternToWAV fp filename numLoops sd st))) CH_KICK = Channel0 fp"
proof -
  let ?sps = "samplesPerStep_of (seqBPM st)"
  let ?total = "?sps * of_nat NUM_STEPS * word_of_int numLoops"
  let ?out0 = "[Exporting filename numLoops (seqBPM st) ?total (?total * 4 div 1024)]"
  let ?w0 = "\<lparr>f_bytes = writeWAVHeader ?total, wbuf = (\<lambda>i. 0), wbufPos = 0\<rparr>"
  let ?st0 = "reset_channels fp st"
  obtain o1 w1 s1 where r: "fold (export_loop fp (unat ?sps) numLoops) [0..<nat numLoops]
      (?out0, ?w0, ?st0) = (o1, w1, s1)" by (metis prod.exhaust)
  have s0: "silent ?st0" by (rule silent_reset_channels)
  have r0: "rest_pattern ?st0" using rest_pattern_ctl [OF ctl_reset_channels] assms(3) by simp
  from export_loops_rest_kick [OF s0 r0, where fp = fp and k = "unat ?sps" and L = numLoops
      and ls = "[0..<nat numLoops]" and out = ?out0 and w = ?w0] r
  have "ch s1 CH_KICK = ch ?st0 CH_KICK" by simp
  then have k: "ch s1 CH_KICK = Channel0 fp"
    by (simp add: ch_reset_channels CH_KICK_def NUM_CH_def)
  show ?thesis
    using assms(1,2) k by (simp add: exportPatternToWAV_def Let_def r)
qed

text \<open>
  Claim C4, over sequences of operations. A kick trigger sets the frequency of the kick
  channel to 200 Hz and its pitch multiplier to the \<open>float\<close> nearest 0.9991. After it,
  along every sequence \<open>ops\<close> of operations without a kick trigger (rendered samples of
  any channel, releases and note triggers of the melodic channels, snare and hat
  triggers, in any order) and for every next operation \<open>x\<close> of that kind: the frequency
  is between 30 and 200 Hz; a rendered sample of the kick channel lowers it strictly
  while it is above 30 Hz; every other operation leaves it as it is; once it is 30 Hz it
  stays 30 Hz; and there is a number \<open>N\<close> such that after \<open>N\<close> rendered samples of the
  kick channel, whatever lies between them, it is exactly 30 Hz. It holds for every
  \<open>float\<close> rounding whose relative error in the normal range is at most \<open>2^-24\<close>, as
  that of rounding to nearest is.
\<close>

theorem C4_kick_sweep:
  assumes "rel_error (f32 fp)" and "\<forall>y\<in>set ops. kick_free y" and "kick_free x"
  shows "curFreq (ch (trigKick fp st) CH_KICK) = 200 \<and>
         pitchMul (ch (trigKick fp st) CH_KICK) = f32 fp (9991 / 10000) \<and>
         30 \<le> curFreq (ch (after_ops fp ops (trigKick fp st)) CH_KICK) \<and>
         curFreq (ch (after_ops fp ops (trigKick fp st)) CH_KICK) \<le> 200 \<and>
         (x = Render CH_KICK \<and> 30 < curFreq (ch (after_ops fp ops (trigKick fp st)) CH_KICK) \<longrightarrow>
            curFreq (ch (apply_op fp x (after_ops fp ops (trigKick fp st))) CH_KICK)
              < curFreq (ch (after_ops fp ops (trigKick fp st)) CH_KICK)) \<and>
         (x \<noteq> Render CH_KICK \<longrightarrow>
            curFreq (ch (apply_op fp x (after_ops fp ops (trigKick fp st))) CH_KICK)
              = curFreq (ch (after_ops fp ops (trigKick fp st)) CH_KICK)) \<and>
         (curFreq (ch (after_ops fp ops (trigKick fp st)) CH_KICK) = 30 \<longrightarrow>
            curFreq (ch (apply_op fp x (after_ops fp ops (trigKick fp st))) CH_KICK) = 30) \<and>
         (\<exists>N. \<forall>os. (\<forall>y\<in>set os. kick_free y) \<and> N \<le> count_list os (Render CH_KICK) \<longrightarrow>
            curFreq (ch (after_ops fp os (trigKick fp st)) CH_KICK) = 30)"
proof -
  let ?z = "ch (trigKick fp st) CH_KICK"
  let ?s = "after_ops fp ops (trigKick fp st)"
  let ?n = "count_list ops (Render CH_KICK)"
  let ?k = "(chan_step fp ^^ ?n) ?z"
  have k0: "kick_sweep fp ?z" by (simp add: kick_sweep_def trigKick_def)
  have s: "ch ?s CH_KICK = ?k" by (rule after_ops_kick [OF assms(2)])
  have s': "ch (apply_op fp x ?s) CH_KICK = (if x = Render CH_KICK then chan_step fp ?k else ?k)"
    by (simp add: apply_op_kick [OF assms(3)] s)
  note e = kick_either [OF assms(1) k0, of ?n]
  have start: "curFreq ?z = 200" "pitchMul ?z = f32 fp (9991 / 10000)"
    by (simp_all add: trigKick_def)
  have range: "30 \<le> curFreq ?k" "curFreq ?k \<le> 200"
    using e by (auto simp: kick_sweep_def kick_floor_def)
  have down: "curFreq (chan_step fp ?k) < curFreq ?k" if "30 < curFreq ?k"
  proof -
    have "kick_sweep fp ?k" using e that by (auto simp: kick_floor_def)
    then show ?thesis by (rule kick_sweep_step(1) [OF assms(1)])
  qed
  have stay: "curFreq (chan_step fp ?k) = 30" if "curFreq ?k = 30"
  proof -
    have "kick_floor fp ?k" using e that by (auto simp: kick_sweep_def)
    from kick_floor_step [OF assms(1) this] show ?thesis by (simp add: kick_floor_def)
  qed
  from kick_run [OF assms(1) k0] obtain N where
    N: "\<forall>n\<ge>N. kick_floor fp ((chan_step fp ^^ n) ?z)" by blast
  have floor: "curFreq (ch (after_ops fp os (trigKick fp st)) CH_KICK) = 30"
    if "\<forall>y\<in>set os. kick_free y" "N \<le> count_list os (Render CH_KICK)" for os
    using N that(2) by (simp add: after_ops_kick [OF that(1)] kick_floor_def)
  have ex: "\<exists>N. \<forall>os. (\<forall>y\<in>set os. kick_free y) \<and> N \<le> count_list os (Render CH_KICK) \<longrightarrow>
      curFreq (ch (after_ops fp os (trigKick fp st)) CH_KICK) = 30"
    using floor by blast
  show ?thesis
    using start range down stay ex unfolding s s' by simp
qed

text \<open>
  The theorem for exact arithmetic, whose rounding error is zero. After a kick sample, a
  lead sample and a snare trigger the frequency is 199.82 Hz; a further kick sample
  lowers it and a further snare trigger leaves it. And some sequence of operations
  brings the frequency to 30 Hz, where a further kick sample leaves it.
\<close>

theorem C4_kick_sweep_witness:
  "rel_error (f32 exact) \<and> kick_free (Render CH_KICK) \<and> kick_free (Render CH_LEAD) \<and>
   kick_free TrigSnare \<and>
   curFreq (ch (after_ops exact [Render CH_KICK, Render CH_LEAD, TrigSnare]
          (trigKick exact (engine0 exact))) CH_KICK) = 199.82 \<and>
   curFreq (ch (apply_op exact (Render CH_KICK)
       (after_ops exact [Render CH_KICK, Render CH_LEAD, TrigSnare] (trigKick exact (engine0 exact)))) CH_KICK)
     < 199.82 \<and>
   curFreq (ch (apply_op exact TrigSnare
       (after_ops exact [Render CH_KICK, Render CH_LEAD, TrigSnare] (trigKick exact (engine0 exact)))) CH_KICK)
     = 199.82 \<and>
   (\<exists>os. (\<forall>y\<in>set os. kick_free y) \<and>
      curFreq (ch (after_ops exact os (trigKick exact (engine0 exact))) CH_KICK) = 30 \<and>
      curFreq (ch (apply_op exact (Render CH_KICK)
         (after_ops exact os (trigKick exact (engine0 exact)))) CH_KICK) = 30)"
proof -
  let ?ops = "[Render CH_KICK, Render CH_LEAD, TrigSnare]"
  let ?st = "trigKick exact (engine0 exact)"
  have r: "rel_error (f32 exact)" by (simp add: rel_error_def exact_def)
  have f: "kick_free (Render CH_KICK)" "kick_free (Render CH_LEAD)" "kick_free TrigSnare"
    by (simp_all add: kick_free_def ch_nums)
  have all: "\<forall>y\<in>set ?ops. kick_free y" using f by simp
  have n: "count_list ?ops (Render CH_KICK) = 1" by (simp add: ch_nums)
  have "ch (after_ops exact ?ops ?st) CH_KICK
      = (chan_step exact ^^ count_list ?ops (Render CH_KICK)) (ch ?st CH_KICK)"
    by (rule after_ops_kick [OF all])
  then have "ch (after_ops exact ?ops ?st) CH_KICK = chan_step exact (ch ?st CH_KICK)"
    unfolding n by simp
  then have v: "curFreq (ch (after_ops exact ?ops ?st) CH_KICK) = 199.82"
    by (simp add: trigKick_def chan_step_def next_freq_def exact_sel Let_def)
  have ne: "TrigSnare \<noteq> Render CH_KICK" by simp
  note k = C4_kick_sweep [OF r all f(1), of "engine0 exact"]
  note s = C4_kick_sweep [OF r all f(3), of "engine0 exact"]
  have down: "curFreq (ch (apply_op exact (Render CH_KICK) (after_ops exact ?ops ?st)) CH_KICK) < 199.82"
    using k v by simp
  have same: "curFreq (ch (apply_op exact TrigSnare (after_ops exact ?ops ?st)) CH_KICK) = 199.82"
    using s v ne by simp
  from k obtain N where N: "\<forall>os. (\<forall>y\<in>set os. kick_free y) \<and> N \<le> count_list os (Render CH_KICK) \<longrightarrow>
      curFreq (ch (after_ops exact os ?st) CH_KICK) = 30" by blast
  let ?os = "replicate N (Render CH_KICK)"
  have os: "\<forall>y\<in>set ?os. kick_free y" using f(1) by simp
  have "count_list ?os (Render CH_KICK) = N" by (induction N) simp_all
  with N os have at: "curFreq (ch (after_ops exact ?os ?st) CH_KICK) = 30" by simp
  from C4_kick_sweep [OF r os f(1), of "engine0 exact"] at
  have "curFreq (ch (apply_op exact (Render CH_KICK) (after_ops exact ?os ?st)) CH_KICK) = 30"
    by simp
  with os at have ex: "\<exists>os. (\<forall>y\<in>set os. kick_free y) \<and>
      curFreq (ch (after_ops exact os ?st) CH_KICK) = 30 \<and>
      curFreq (ch (apply_op exact (Render CH_KICK) (after_ops exact os ?st)) CH_KICK) = 30"
    by blast
  show ?thesis using r f v down same ex by simp
qed

text \<open>
  Claim C4 as worded ends the sweep at "the next trigger" only. The export is no
  trigger and resets the channel records (\<open>ch[c] = Channel()\<close>): a kick is triggered,
  frequency 200 Hz; the pattern of the start-up state, which has no drum step, is
  exported with one loop to a mounted card; the kick channel then has the frequency
  440 Hz of a fresh record, and it keeps 440 Hz over the next rendered frame.
\<close>

theorem C4_counterexample:
  "curFreq (ch (trigKick exact (engine0 exact)) CH_KICK) = 200 \<and>
   rest_pattern (trigKick exact (engine0 exact)) \<and>
   curFreq (ch (snd (snd (exportPatternToWAV exact ''song1.wav'' 1
      \<lparr>sd_begin = True, sd_can_open = (\<lambda>p. True), sd_files = Map.empty\<rparr>
      (trigKick exact (engine0 exact))))) CH_KICK) = 440 \<and>
   curFreq (ch (snd (mixSum exact (snd (snd (exportPatternToWAV exact ''song1.wav'' 1
      \<lparr>sd_begin = True, sd_can_open = (\<lambda>p. True), sd_files = Map.empty\<rparr>
      (trigKick exact (engine0 exact))))))) CH_KICK) = 440"
proof -
  let ?sd = "\<lparr>sd_begin = True, sd_can_open = (\<lambda>p. True), sd_files = Map.empty\<rparr>"
  let ?st = "trigKick exact (engine0 exact)"
  have r: "rest_pattern ?st"
    by (simp add: rest_pattern_def trigKick_def engine0_def MelStep0_def)
  have k: "ch (snd (snd (exportPatternToWAV exact ''song1.wav'' 1 ?sd ?st))) CH_KICK = Channel0 exact"
    by (rule export_rest_kick [OF _ _ r]) simp_all
  have c: "CH_KICK < NUM_CH" by (simp add: CH_KICK_def NUM_CH_def)
  have "curFreq (ch ?st CH_KICK) = 200" by (simp add: trigKick_def)
  moreover have "curFreq (ch (snd (mixSum exact (snd (snd (exportPatternToWAV exact ''song1.wav'' 1 ?sd ?st))))) CH_KICK) = 440"
    by (simp add: ch_mixSum [OF c] k chan_step_def Channel0_def)
  ultimately show ?thesis using r k by (simp add: Channel0_def)
qed
subsection \<open>Trigger dispatch of a step\<close>

text \<open>
  Claim C5, as the code has it. \<open>trigSequencerStep s\<close> leaves the lead channel as a
  trigger with the stored frequency and waveform leaves it when the frequency stored
  for track 0 at step \<open>s\<close> is greater than zero, and as a release leaves it otherwise;
  the same for the bass channel and track 1. The kick, snare and hat channels and the
  two noise registers are as the percussive trigger leaves them for exactly the drum
  tracks whose flag at step \<open>s\<close> is set, and untouched otherwise.
\<close>

theorem C5_trigger_step:
  "ch (trigSequencerStep fp s st) CH_LEAD =
     ch (if freq (melPat st 0 s) > 0
         then trigNote fp CH_LEAD (freq (melPat st 0 s)) (wave (melPat st 0 s)) st
         else releaseNote CH_LEAD st) CH_LEAD \<and>
   ch (trigSequencerStep fp s st) CH_BASS =
     ch (if freq (melPat st 1 s) > 0
         then trigNote fp CH_BASS (freq (melPat st 1 s)) (wave (melPat st 1 s)) st
         else releaseNote CH_BASS st) CH_BASS \<and>
   ch (trigSequencerStep fp s st) CH_KICK = ch (if drmPat st 0 s then trigKick fp st else st) CH_KICK \<and>
   ch (trigSequencerStep fp s st) CH_SNARE = ch (if drmPat st 1 s then trigSnare fp st else st) CH_SNARE \<and>
   ch (trigSequencerStep fp s st) CH_HAT = ch (if drmPat st 2 s then trigHat fp st else st) CH_HAT \<and>
   nlfsr (trigSequencerStep fp s st) 0 = nlfsr (if drmPat st 1 s then trigSnare fp st else st) 0 \<and>
   nlfsr (trigSequencerStep fp s st) 1 = nlfsr (if drmPat st 2 s then trigHat fp st else st) 1"
  by (simp add: trigSequencerStep_def trigMelTrack_def mel_tracks Let_def trig_defs ch_names
      ch_names [symmetric])

text \<open>
  Claim C5 as stated fails for a stored frequency that is nonzero but negative: after
  \<open>PLAY:440\<close> and \<open>SEQ_SET:0,0,-440,0\<close> step 0 of track 0 holds \<open>-440\<close> and the lead
  channel is sounding; \<open>trigSequencerStep 0\<close> releases it.
\<close>

theorem C5_counterexample:
  "freq (melPat (ws_text exact 0 ''SEQ_SET:0,0,-440,0'' (ws_text exact 0 ''PLAY:440'' (engine0 exact))) 0 0) \<noteq> 0 \<and>
   active (ch (ws_text exact 0 ''SEQ_SET:0,0,-440,0'' (ws_text exact 0 ''PLAY:440'' (engine0 exact))) CH_LEAD) \<and>
   \<not> active (ch (trigSequencerStep exact 0
        (ws_text exact 0 ''SEQ_SET:0,0,-440,0'' (ws_text exact 0 ''PLAY:440'' (engine0 exact)))) CH_LEAD)"
proof -
  let ?st = "ws_text exact 0 ''SEQ_SET:0,0,-440,0'' (ws_text exact 0 ''PLAY:440'' (engine0 exact))"
  have f: "freq (melPat ?st 0 0) = - 440"
    by (simp add: ws_text_def onWsEvent_def seq_set_def parse_defs constrain_def Let_def
        NUM_MEL_TRK_def NUM_STEPS_def exact_def trigNote_def)
  have a: "active (ch ?st CH_LEAD)"
    by (simp add: ws_text_def onWsEvent_def seq_set_def parse_defs constrain_def Let_def
        NUM_MEL_TRK_def NUM_STEPS_def exact_def trigNote_def)
  have "\<not> active (ch (trigSequencerStep exact 0 ?st) CH_LEAD)"
    using f by (simp add: trigSequencerStep_def trigMelTrack_def mel_tracks Let_def trig_defs ch_names
      ch_names [symmetric])
  with f a show ?thesis by simp
qed

subsection \<open>The envelope\<close>

lemma chan_step_env:
  assumes "rounding (f32 fp)" "env_ok fp k"
  shows "envLvl (chan_step fp k) \<le> envLvl k \<and> env_ok fp (chan_step fp k)"
proof -
  have e: "0 \<le> envLvl k" "f32 fp (envLvl k) = envLvl k" "0 \<le> envDcy k" "envDcy k \<le> 1"
    using assms(2) by (simp_all add: env_ok_def)
  have "envLvl k * envDcy k \<le> envLvl k * 1" using e by (intro mult_left_mono) simp_all
  then have "f32 fp (envLvl k * envDcy k) \<le> f32 fp (envLvl k)"
    using rounding_mono [OF assms(1)] by simp
  then have le: "f32 fp (envLvl k * envDcy k) \<le> envLvl k" using e(2) by simp
  have "0 \<le> envLvl k * envDcy k" using e by simp
  from rounding_mono [OF assms(1) this] have ge: "0 \<le> f32 fp (envLvl k * envDcy k)"
    using rounding_0 [OF assms(1)] by simp
  show ?thesis
    using le ge e rounding_idem [OF assms(1)] by (simp add: chan_step_def env_ok_def)
qed

lemma apply_op_env:
  assumes "rounding (f32 fp)" "env_ok fp (ch st c)" "\<not> triggers x c"
  shows "envLvl (ch (apply_op fp x st) c) \<le> envLvl (ch st c) \<and> env_ok fp (ch (apply_op fp x st) c)"
proof (cases x)
  case (Render c')
  show ?thesis
  proof (cases "c' = c")
    case True
    with Render chan_step_env [OF assms(1,2)] show ?thesis by (simp add: ch_synthSample_same)
  next
    case False
    with Render assms(2) show ?thesis by (simp add: ch_synthSample_other)
  qed
next
  case (Release c')
  then show ?thesis
    using assms(2) rounding_0 [OF assms(1)] by (auto simp: releaseNote_def env_ok_def)
next
  case (TrigNote c' f w)
  then show ?thesis using assms(2,3) by (simp add: trigNote_def)
next
  case TrigKick
  then show ?thesis using assms(2,3) by (simp add: trigKick_def)
next
  case TrigSnare
  then show ?thesis using assms(2,3) by (simp add: trigSnare_def)
next
  case TrigHat
  then show ?thesis using assms(2,3) by (simp add: trigHat_def)
qed

lemma apply_op_trigger:
  assumes "rounding (f32 fp)" "triggers x c"
  shows "envLvl (ch (apply_op fp x st) c) = 1 \<and> env_ok fp (ch (apply_op fp x st) c)"
proof -
  have d: "\<And>q::real. 0 \<le> q \<Longrightarrow> q \<le> 1 \<Longrightarrow> 0 \<le> f32 fp q \<and> f32 fp q \<le> 1"
    using rounding_unit [OF assms(1)] by simp
  show ?thesis
    using assms(2) rounding_1 [OF assms(1)]
      d [of "9998 / 10000"] d [of "9997 / 10000"] d [of "9988 / 10000"] d [of "9970 / 10000"]
    by (cases x) (simp_all add: trig_defs env_ok_def)
qed

lemma run_ops_env:
  "rounding (f32 fp) \<Longrightarrow> env_ok fp (ch st c) \<Longrightarrow> \<forall>x\<in>set ops. \<not> triggers x c \<Longrightarrow>
   (\<forall>s\<in>set (run_ops fp ops st). envLvl (ch s c) \<le> envLvl (ch st c)) \<and>
   sorted_wrt (\<ge>) (map (\<lambda>s. envLvl (ch s c)) (run_ops fp ops st))"
proof (induction ops arbitrary: st)
  case Nil
  then show ?case by simp
next
  case (Cons x xs)
  have nx: "\<not> triggers x c" and nxs: "\<forall>x\<in>set xs. \<not> triggers x c" using Cons.prems(3) by simp_all
  note a = apply_op_env [OF Cons.prems(1,2) nx]
  from Cons.IH [OF Cons.prems(1) conjunct2 [OF a] nxs]
  have ih: "\<forall>s\<in>set (run_ops fp xs (apply_op fp x st)). envLvl (ch s c) \<le> envLvl (ch (apply_op fp x st) c)"
    "sorted_wrt (\<ge>) (map (\<lambda>s. envLvl (ch s c)) (run_ops fp xs (apply_op fp x st)))"
    by simp_all
  show ?case using a ih by (auto simp: sorted_wrt_map)
qed

text \<open>
  Claim C6. A trigger of channel \<open>c\<close> (a note on \<open>c\<close>, or the kick, snare or hat preset
  for its channel) sets the envelope level of \<open>c\<close> to exactly 1, and along every
  sequence of rendered samples and releases of any channel and triggers of other
  channels that follows, the level of \<open>c\<close> never rises: the levels of the engines passed
  through form a non-increasing sequence.
\<close>

theorem C6_envelope:
  assumes "rounding (f32 fp)" "triggers x c" "\<forall>y\<in>set ops. \<not> triggers y c"
  shows "envLvl (ch (apply_op fp x st) c) = 1 \<and>
         sorted_wrt (\<ge>) (map (\<lambda>s. envLvl (ch s c)) (apply_op fp x st # run_ops fp ops (apply_op fp x st)))"
proof -
  note t = apply_op_trigger [OF assms(1,2), of st]
  from run_ops_env [OF assms(1) conjunct2 [OF t] assms(3)] t show ?thesis by simp
qed

text \<open>The theorem for a kick hit followed by two rendered samples and a release.\<close>

theorem C6_envelope_witness:
  "rounding (f32 exact) \<and> triggers TrigKick CH_KICK \<and>
   \<not> triggers (Render CH_KICK) CH_KICK \<and> \<not> triggers (Render CH_LEAD) CH_KICK \<and>
   \<not> triggers (Release CH_KICK) CH_KICK \<and>
   envLvl (ch (apply_op exact TrigKick (engine0 exact)) CH_KICK) = 1 \<and>
   sorted_wrt (\<ge>) (map (\<lambda>s. envLvl (ch s CH_KICK))
     (apply_op exact TrigKick (engine0 exact) #
      run_ops exact [Render CH_KICK, Render CH_LEAD, Release CH_KICK] (apply_op exact TrigKick (engine0 exact))))"
proof -
  have r: "rounding (f32 exact)" by (simp add: rounding_def exact_def mono_def)
  from C6_envelope [OF r, of TrigKick CH_KICK "[Render CH_KICK, Render CH_LEAD, Release CH_KICK]" "engine0 exact"] r
  show ?thesis by simp
qed

subsection \<open>Export without a usable card\<close>

text \<open>
  Claim C7. When \<open>SD.begin()\<close> fails or the file cannot be opened, the export returns
  after printing its failure line and hands back the engine exactly as it got it: the
  five channels, both pattern grids, the running flag, the step index and the BPM.
\<close>

theorem C7_export_failure:
  assumes "\<not> sd_begin sd \<or> \<not> sd_can_open sd (''/'' @ filename)"
  shows "snd (snd (exportPatternToWAV fp filename numLoops sd st)) = st \<and>
         (fst (exportPatternToWAV fp filename numLoops sd st) = [Export_failed_no_SD] \<or>
          fst (exportPatternToWAV fp filename numLoops sd st) = [Export_failed_open (''/'' @ filename)])"
  using assms by (auto simp: exportPatternToWAV_def Let_def)

text \<open>The theorem for a card that does not mount.\<close>

theorem C7_export_failure_witness:
  "\<not> sd_begin \<lparr>sd_begin = False, sd_can_open = (\<lambda>p. True), sd_files = Map.empty\<rparr> \<and>
   snd (snd (exportPatternToWAV exact ''song1.wav'' 2
     \<lparr>sd_begin = False, sd_can_open = (\<lambda>p. True), sd_files = Map.empty\<rparr> (engine0 exact))) = engine0 exact"
  using C7_export_failure [of "\<lparr>sd_begin = False, sd_can_open = (\<lambda>p. True), sd_files = Map.empty\<rparr>"
      "''song1.wav''" exact 2 "engine0 exact"]
  by simp

subsection \<open>Commands with missing fields\<close>

lemma find_char_count:
  "find_char c xs = Some i \<Longrightarrow> count_list xs c = Suc (count_list (drop (Suc i) xs) c)"
proof (induction xs arbitrary: i)
  case Nil
  then show ?case by simp
next
  case (Cons x xs)
  then show ?case by (cases "x = c") auto
qed

lemma indexOf_nonneg:
  assumes "0 \<le> indexOf s c from"
  shows "\<exists>i. find_char c (drop from s) = Some i \<and> indexOf s c from = int (from + i)"
  using assms by (auto simp: indexOf_def split: option.splits)

lemma two_commas:
  assumes "0 \<le> indexOf body c 0" "0 \<le> indexOf body c (nat (indexOf body c 0 + 1))"
  shows "\<exists>j. indexOf body c (nat (indexOf body c 0 + 1)) = int j \<and>
             count_list body c = Suc (Suc (count_list (drop (Suc j) body) c))"
proof -
  from indexOf_nonneg [OF assms(1)] obtain i where
    i: "find_char c body = Some i" "indexOf body c 0 = int i" by auto
  have n: "nat (indexOf body c 0 + 1) = Suc i" using i by simp
  from indexOf_nonneg [OF assms(2)] n obtain k where
    k: "find_char c (drop (Suc i) body) = Some k" "indexOf body c (Suc i) = int (Suc i + k)" by auto
  have "count_list body c = Suc (count_list (drop (Suc i) body) c)"
    by (rule find_char_count [OF i(1)])
  also have "count_list (drop (Suc i) body) c = Suc (count_list (drop (Suc k) (drop (Suc i) body)) c)"
    by (rule find_char_count [OF k(1)])
  finally have "count_list body c = Suc (Suc (count_list (drop (Suc (Suc i + k)) body) c))"
    by (simp add: add.commute)
  moreover have "indexOf body c (nat (indexOf body c 0 + 1)) = int (Suc i + k)"
    using k(2) n by simp
  ultimately show ?thesis by blast
qed

lemma seq_drum_dropped:
  assumes "count_list body (CHR '','') < 2"
  shows "seq_drum body st = st"
proof -
  have "indexOf body (CHR '','') 0 < 0 \<or> indexOf body (CHR '','') (nat (indexOf body (CHR '','') 0 + 1)) < 0"
    using two_commas [of body "CHR '',''"] assms by fastforce
  then show ?thesis by (auto simp: seq_drum_def Let_def)
qed

lemma seq_set_dropped:
  assumes "count_list body (CHR '','') < 3"
  shows "seq_set fp body st = st"
proof -
  let ?c1 = "indexOf body (CHR '','') 0"
  let ?c2 = "indexOf body (CHR '','') (nat (?c1 + 1))"
  let ?c3 = "indexOf body (CHR '','') (nat (?c2 + 1))"
  have "?c1 < 0 \<or> ?c2 < 0 \<or> ?c3 < 0"
  proof (rule ccontr)
    assume "\<not> ?thesis"
    then have a: "0 \<le> ?c1" "0 \<le> ?c2" "0 \<le> ?c3" by auto
    from two_commas [OF a(1) a(2)] obtain j where
      j: "?c2 = int j" "count_list body (CHR '','') = Suc (Suc (count_list (drop (Suc j) body) (CHR '','')))"
      by auto
    have n: "nat (?c2 + 1) = Suc j" using j(1) by simp
    from indexOf_nonneg [OF a(3)] n obtain k where
      "find_char (CHR '','') (drop (Suc j) body) = Some k" by auto
    from find_char_count [OF this] j(2) assms show False by simp
  qed
  then show ?thesis by (auto simp: seq_set_def Let_def)
qed

lemma startsWithD: "startsWith s p \<Longrightarrow> s = p @ drop (length p) s"
  by (metis append_take_drop_id startsWith_def)

text \<open>
  Claim C8, by the test the decoder makes, which counts commas and not fields: a
  set-drum-step message whose text after the colon has fewer than two commas, and a
  set-melodic-step message with fewer than three commas, is dropped; the decoder
  returns the state it was given.
\<close>

theorem C8_missing_fields_dropped:
  assumes "(startsWith msg ''SEQ_DRUM:'' \<and> count_list (substring_from msg 9) (CHR '','') < 2) \<or>
           (startsWith msg ''SEQ_SET:'' \<and> count_list (substring_from msg 8) (CHR '','') < 3)"
  shows "onWsEvent fp ty opcode now msg st = st"
  using assms
proof
  assume a: "startsWith msg ''SEQ_DRUM:'' \<and> count_list (substring_from msg 9) (CHR '','') < 2"
  then obtain r where m: "msg = ''SEQ_DRUM:'' @ r" using startsWithD by blast
  have d: "seq_drum (substring_from msg 9) st = st" using a by (simp add: seq_drum_dropped)
  show ?thesis using d unfolding m by (simp add: onWsEvent_def startsWith_def)
next
  assume a: "startsWith msg ''SEQ_SET:'' \<and> count_list (substring_from msg 8) (CHR '','') < 3"
  then obtain r where m: "msg = ''SEQ_SET:'' @ r" using startsWithD by blast
  have d: "seq_set fp (substring_from msg 8) st = st" using a by (simp add: seq_set_dropped)
  show ?thesis using d unfolding m by (simp add: onWsEvent_def startsWith_def)
qed

text \<open>The theorem on \<open>SEQ_DRUM:1,2\<close>, which has one comma.\<close>

theorem C8_missing_fields_dropped_witness:
  "startsWith ''SEQ_DRUM:1,2'' ''SEQ_DRUM:'' \<and>
   count_list (substring_from ''SEQ_DRUM:1,2'' 9) (CHR '','') < 2 \<and>
   onWsEvent exact WS_EVT_DATA WS_TEXT 0 ''SEQ_DRUM:1,2'' (engine0 exact) = engine0 exact"
  using C8_missing_fields_dropped [of "''SEQ_DRUM:1,2''" exact WS_EVT_DATA WS_TEXT 0 "engine0 exact"]
  by (simp add: startsWith_def substring_from_def)

text \<open>
  Claim C8 as worded, for every message that lacks a field, fails on a message that
  keeps its commas: \<open>SEQ_DRUM:1,2,\<close> lacks its third field and is not dropped. The empty
  field reads as 0 and the message switches off step 2 of the snare track, which
  \<open>SEQ_DRUM:1,2,1\<close> had switched on.
\<close>

theorem C8_counterexample:
  "drmPat (ws_text exact 0 ''SEQ_DRUM:1,2,1'' (engine0 exact)) 1 2 \<and>
   \<not> drmPat (ws_text exact 0 ''SEQ_DRUM:1,2,'' (ws_text exact 0 ''SEQ_DRUM:1,2,1'' (engine0 exact))) 1 2 \<and>
   ws_text exact 0 ''SEQ_DRUM:1,2,'' (ws_text exact 0 ''SEQ_DRUM:1,2,1'' (engine0 exact))
     \<noteq> ws_text exact 0 ''SEQ_DRUM:1,2,1'' (engine0 exact)"
proof -
  let ?a = "ws_text exact 0 ''SEQ_DRUM:1,2,1'' (engine0 exact)"
  let ?b = "ws_text exact 0 ''SEQ_DRUM:1,2,'' ?a"
  have a: "drmPat ?a 1 2"
    by (simp add: ws_text_def onWsEvent_def seq_drum_def parse_defs constrain_def Let_def
        NUM_DRM_TRK_def NUM_STEPS_def)
  have b: "\<not> drmPat ?b 1 2"
    by (simp add: ws_text_def onWsEvent_def seq_drum_def parse_defs constrain_def Let_def
        NUM_DRM_TRK_def NUM_STEPS_def)
  from a b have "?b \<noteq> ?a" by metis
  with a b show ?thesis by simp
qed

subsection \<open>The export is a function of the song\<close>

lemma same_song_ctl:
  assumes "ctl a' = ctl a" "ctl b' = ctl b" "same_song a b"
  shows "same_song a' b'"
  using ctl_eqD [OF assms(1)] ctl_eqD [OF assms(2)] assms(3) by (simp add: same_song_def)

lemma synthSample_same:
  assumes "same_render a b" "gAmp a = gAmp b" "c < NUM_CH"
  shows "fst (synthSample fp c a) = fst (synthSample fp c b) \<and>
         same_render (snd (synthSample fp c a)) (snd (synthSample fp c b))"
proof -
  have "c = 0 \<or> c = 1 \<or> c = 2 \<or> c = 3 \<or> c = 4" using assms(3) unfolding NUM_CH_def by arith
  then show ?thesis
  proof (elim disjE)
    assume "c = 0"
    then show ?thesis using assms(1,2)
      by (auto simp: same_render_def synthSample_def Let_def ch_nums)
  next
    assume "c = 1"
    then show ?thesis using assms(1,2)
      by (auto simp: same_render_def synthSample_def Let_def ch_nums)
  next
    assume "c = 2"
    then show ?thesis using assms(1,2)
      by (auto simp: same_render_def synthSample_def Let_def ch_nums)
  next
    assume "c = 3"
    then show ?thesis using assms(1,2)
      by (auto simp: same_render_def synthSample_def Let_def ch_nums)
  next
    assume "c = 4"
    then show ?thesis using assms(1,2)
      by (auto simp: same_render_def synthSample_def Let_def ch_nums)
  qed
qed


lemma fold_synth_same:
  assumes "\<forall>c\<in>set cs. c < NUM_CH"
  shows "same_render a b \<Longrightarrow> gAmp a = gAmp b \<Longrightarrow>
    fst (fold (\<lambda>c (mix, s). let (v, s') = synthSample fp c s in (mix + v, s')) cs (m, a)) =
    fst (fold (\<lambda>c (mix, s). let (v, s') = synthSample fp c s in (mix + v, s')) cs (m, b)) \<and>
    same_render
      (snd (fold (\<lambda>c (mix, s). let (v, s') = synthSample fp c s in (mix + v, s')) cs (m, a)))
      (snd (fold (\<lambda>c (mix, s). let (v, s') = synthSample fp c s in (mix + v, s')) cs (m, b)))"
  using assms
proof (induction cs arbitrary: m a b)
  case Nil
  then show ?case by simp
next
  case (Cons c cs)
  obtain v a' where sa: "synthSample fp c a = (v, a')" by (metis prod.exhaust)
  obtain u b' where sb: "synthSample fp c b = (u, b')" by (metis prod.exhaust)
  have c: "c < NUM_CH" using Cons.prems(3) by simp
  from synthSample_same [OF Cons.prems(1,2) c, of fp] sa sb
  have vu: "v = u" and r: "same_render a' b'" by simp_all
  have g: "gAmp a' = gAmp b'"
    using gAmp_synthSample [of fp c a] gAmp_synthSample [of fp c b] sa sb Cons.prems(2) by simp
  have "\<forall>c\<in>set cs. c < NUM_CH" using Cons.prems(3) by simp
  from Cons.IH [OF r g this, of "m + v"] sa sb vu show ?case by simp
qed

lemma mixSum_same:
  assumes "same_render a b" "gAmp a = gAmp b"
  shows "fst (mixSum fp a) = fst (mixSum fp b) \<and> same_render (snd (mixSum fp a)) (snd (mixSum fp b))"
proof -
  have "\<forall>c\<in>set [0..<NUM_CH]. c < NUM_CH" by simp
  from fold_synth_same [OF this assms, of fp 0] show ?thesis unfolding mixSum_def .
qed

lemma mixFrame_same:
  assumes "same_render a b" "gAmp a = gAmp b"
  shows "fst (mixFrame fp a) = fst (mixFrame fp b) \<and>
         same_render (snd (mixFrame fp a)) (snd (mixFrame fp b))"
  using mixSum_same [OF assms, of fp] by (auto simp: mixFrame_def split: prod.splits)

lemma ctl_export_frame: "ctl (snd (export_frame fp (w, st))) = ctl st"
  using ctl_mixFrame [of fp st] by (auto simp: export_frame_def Let_def split: prod.splits)

lemma export_frame_same:
  assumes "same_render a b" "same_song a b"
  shows "fst (export_frame fp (w, a)) = fst (export_frame fp (w, b)) \<and>
         same_render (snd (export_frame fp (w, a))) (snd (export_frame fp (w, b))) \<and>
         same_song (snd (export_frame fp (w, a))) (snd (export_frame fp (w, b)))"
proof -
  have g: "gAmp a = gAmp b" using assms(2) by (simp add: same_song_def)
  have "same_song (snd (export_frame fp (w, a))) (snd (export_frame fp (w, b)))"
    by (rule same_song_ctl [OF ctl_export_frame ctl_export_frame assms(2)])
  with mixFrame_same [OF assms(1) g, of fp] show ?thesis
    by (auto simp: export_frame_def Let_def split: prod.splits)
qed

lemma export_frames_same:
  assumes "same_render a b" "same_song a b"
  shows "fst ((export_frame fp ^^ k) (w, a)) = fst ((export_frame fp ^^ k) (w, b)) \<and>
         same_render (snd ((export_frame fp ^^ k) (w, a))) (snd ((export_frame fp ^^ k) (w, b))) \<and>
         same_song (snd ((export_frame fp ^^ k) (w, a))) (snd ((export_frame fp ^^ k) (w, b)))"
proof (induction k)
  case 0
  show ?case using assms by simp
next
  case (Suc k)
  obtain w1 a1 where pa: "(export_frame fp ^^ k) (w, a) = (w1, a1)" by (metis prod.exhaust)
  obtain w2 b1 where pb: "(export_frame fp ^^ k) (w, b) = (w2, b1)" by (metis prod.exhaust)
  from Suc pa pb have w: "w2 = w1" and r: "same_render a1 b1" and s: "same_song a1 b1" by simp_all
  from export_frame_same [OF r s, of fp w1] pa pb w show ?case by simp
qed

lemma trigNote_same:
  assumes "same_render a b" "c = CH_LEAD \<or> c = CH_BASS"
  shows "same_render (trigNote fp c f w a) (trigNote fp c f w b)"
  using assms by (auto simp: same_render_def trigNote_def ch_nums)

lemma releaseNote_same:
  assumes "same_render a b" "c = CH_LEAD \<or> c = CH_BASS"
  shows "same_render (releaseNote c a) (releaseNote c b)"
  using assms by (auto simp: same_render_def releaseNote_def ch_nums)

lemma trigKick_same: "same_render a b \<Longrightarrow> same_render (trigKick fp a) (trigKick fp b)"
  by (auto simp: same_render_def trigKick_def ch_nums)

lemma trigSnare_same: "same_render a b \<Longrightarrow> same_render (trigSnare fp a) (trigSnare fp b)"
  by (auto simp: same_render_def trigSnare_def ch_nums)

lemma trigHat_same: "same_render a b \<Longrightarrow> same_render (trigHat fp a) (trigHat fp b)"
  by (auto simp: same_render_def trigHat_def ch_nums)

lemma trigMelTrack_same:
  assumes "same_render a b" "melPat a t s = melPat b t s"
  shows "same_render (trigMelTrack fp s t a) (trigMelTrack fp s t b)"
  using assms by (simp add: trigMelTrack_def Let_def trigNote_same releaseNote_same)

lemma melPat_trigMelTrack: "melPat (trigMelTrack fp s t st) = melPat st"
  using ctl_eqD(3) [OF ctl_trigMelTrack] .

lemma trigSequencerStep_same:
  assumes "same_render a b" "same_song a b" "s < NUM_STEPS"
  shows "same_render (trigSequencerStep fp s a) (trigSequencerStep fp s b) \<and>
         same_song (trigSequencerStep fp s a) (trigSequencerStep fp s b)"
proof -
  have m: "melPat a 0 s = melPat b 0 s" "melPat a 1 s = melPat b 1 s"
    using assms(2,3) by (simp_all add: same_song_def NUM_MEL_TRK_def)
  have d: "drmPat a 0 s = drmPat b 0 s" "drmPat a 1 s = drmPat b 1 s" "drmPat a 2 s = drmPat b 2 s"
    using assms(2,3) by (simp_all add: same_song_def NUM_DRM_TRK_def)
  let ?a1 = "fold (trigMelTrack fp s) [0..<NUM_MEL_TRK] a"
  let ?b1 = "fold (trigMelTrack fp s) [0..<NUM_MEL_TRK] b"
  have r1: "same_render ?a1 ?b1"
    using assms(1) m by (simp add: mel_tracks trigMelTrack_same melPat_trigMelTrack)
  have da: "drmPat ?a1 = drmPat a" using ctl_eqD(4) [OF ctl_fold_trigMelTrack] .
  have db: "drmPat ?b1 = drmPat b" using ctl_eqD(4) [OF ctl_fold_trigMelTrack] .
  let ?a2 = "if drmPat a 0 s then trigKick fp ?a1 else ?a1"
  let ?b2 = "if drmPat a 0 s then trigKick fp ?b1 else ?b1"
  have r2: "same_render ?a2 ?b2" using r1 by (simp add: trigKick_same)
  have da2: "drmPat ?a2 = drmPat a" using da ctl_eqD(4) [OF ctl_trigKick] by simp
  have db2: "drmPat ?b2 = drmPat b" using db ctl_eqD(4) [OF ctl_trigKick] by simp
  let ?a3 = "if drmPat a 1 s then trigSnare fp ?a2 else ?a2"
  let ?b3 = "if drmPat a 1 s then trigSnare fp ?b2 else ?b2"
  have r3: "same_render ?a3 ?b3" using r2 by (simp add: trigSnare_same)
  have da3: "drmPat ?a3 = drmPat a" using da2 ctl_eqD(4) [OF ctl_trigSnare] by simp
  have db3: "drmPat ?b3 = drmPat b" using db2 ctl_eqD(4) [OF ctl_trigSnare] by simp
  let ?a4 = "if drmPat a 2 s then trigHat fp ?a3 else ?a3"
  let ?b4 = "if drmPat a 2 s then trigHat fp ?b3 else ?b3"
  have r4: "same_render ?a4 ?b4" using r3 by (simp add: trigHat_same)
  have ea: "trigSequencerStep fp s a = ?a4"
    unfolding trigSequencerStep_def Let_def da da2 da3 ..
  have eb: "trigSequencerStep fp s b = ?b4"
    unfolding trigSequencerStep_def Let_def db db2 db3 d [symmetric] ..
  have "same_song (trigSequencerStep fp s a) (trigSequencerStep fp s b)"
    by (rule same_song_ctl [OF ctl_trigSequencerStep ctl_trigSequencerStep assms(2)])
  with r4 ea eb show ?thesis by simp
qed

lemma export_step_same:
  assumes "same_render a b" "same_song a b" "s < NUM_STEPS"
  shows "fst (export_step fp k s (w, a)) = fst (export_step fp k s (w, b)) \<and>
         same_render (snd (export_step fp k s (w, a))) (snd (export_step fp k s (w, b))) \<and>
         same_song (snd (export_step fp k s (w, a))) (snd (export_step fp k s (w, b)))"
proof -
  note t = trigSequencerStep_same [OF assms, where fp = fp]
  from export_frames_same [where a = "trigSequencerStep fp s a" and b = "trigSequencerStep fp s b"
      and fp = fp and k = k and w = w] t
  show ?thesis by (simp add: export_step_def)
qed

lemma export_steps_same:
  assumes "\<forall>s\<in>set ss. s < NUM_STEPS"
  shows "same_render a b \<Longrightarrow> same_song a b \<Longrightarrow>
         fst (fold (export_step fp k) ss (w, a)) = fst (fold (export_step fp k) ss (w, b)) \<and>
         same_render (snd (fold (export_step fp k) ss (w, a))) (snd (fold (export_step fp k) ss (w, b))) \<and>
         same_song (snd (fold (export_step fp k) ss (w, a))) (snd (fold (export_step fp k) ss (w, b)))"
  using assms
proof (induction ss arbitrary: w a b)
  case Nil
  then show ?case by simp
next
  case (Cons s ss)
  obtain w1 a1 where ea: "export_step fp k s (w, a) = (w1, a1)" by (metis prod.exhaust)
  obtain w2 b1 where eb: "export_step fp k s (w, b) = (w2, b1)" by (metis prod.exhaust)
  have s: "s < NUM_STEPS" using Cons.prems(3) by simp
  from export_step_same [OF Cons.prems(1,2) s, where fp = fp and k = k and w = w] ea eb
  have i: "w2 = w1" "same_render a1 b1" "same_song a1 b1" by simp_all
  have "\<forall>s\<in>set ss. s < NUM_STEPS" using Cons.prems(3) by simp
  from Cons.IH [OF i(2,3) this, where w = w1] ea eb i(1) show ?case by simp
qed

lemma export_loop_same:
  assumes "same_render a b" "same_song a b"
  shows "fst (export_loop fp k L lp (out, w, a)) = fst (export_loop fp k L lp (out, w, b)) \<and>
         fst (snd (export_loop fp k L lp (out, w, a))) = fst (snd (export_loop fp k L lp (out, w, b))) \<and>
         same_render (snd (snd (export_loop fp k L lp (out, w, a))))
           (snd (snd (export_loop fp k L lp (out, w, b)))) \<and>
         same_song (snd (snd (export_loop fp k L lp (out, w, a))))
           (snd (snd (export_loop fp k L lp (out, w, b))))"
proof -
  have "\<forall>s\<in>set [0..<NUM_STEPS]. s < NUM_STEPS" by simp
  from export_steps_same [OF this assms, where fp = fp and k = k and w = w]
  show ?thesis by (simp add: export_loop_def split: prod.splits)
qed

lemma export_loops_same:
  "same_render a b \<Longrightarrow> same_song a b \<Longrightarrow>
   fst (fold (export_loop fp k L) ls (out, w, a)) = fst (fold (export_loop fp k L) ls (out, w, b)) \<and>
   fst (snd (fold (export_loop fp k L) ls (out, w, a))) =
     fst (snd (fold (export_loop fp k L) ls (out, w, b)))"
proof (induction ls arbitrary: out w a b)
  case Nil
  then show ?case by simp
next
  case (Cons lp ls)
  obtain o1 w1 a1 where ea: "export_loop fp k L lp (out, w, a) = (o1, w1, a1)" by (metis prod.exhaust)
  obtain o2 w2 b1 where eb: "export_loop fp k L lp (out, w, b) = (o2, w2, b1)" by (metis prod.exhaust)
  from export_loop_same [OF Cons.prems, where fp = fp and k = k and L = L and lp = lp
      and out = out and w = w] ea eb
  have i: "o2 = o1" "w2 = w1" "same_render a1 b1" "same_song a1 b1" by simp_all
  from Cons.IH [OF i(3,4), where out = o1 and w = w1] ea eb i(1,2) show ?case by simp
qed

lemma reset_channels_same: "same_render (reset_channels fp a) (reset_channels fp b)"
  by (simp add: same_render_def ch_reset_channels ch_nums NUM_CH_def Channel0_def)

text \<open>
  Claim C9. Two exports with the same file name, loop count and card, started from
  engines that hold the same pattern contents, BPM and global amplitude but otherwise
  arbitrary channel records, noise registers, live waveform and sequencer clock, print
  the same lines and leave the same card: the same bytes in the file, hence the same
  sample sequence.
\<close>

theorem C9_export_deterministic:
  assumes "same_song a b"
  shows "fst (exportPatternToWAV fp filename numLoops sd a) =
           fst (exportPatternToWAV fp filename numLoops sd b) \<and>
         fst (snd (exportPatternToWAV fp filename numLoops sd a)) =
           fst (snd (exportPatternToWAV fp filename numLoops sd b))"
proof -
  have bpm: "seqBPM a = seqBPM b" using assms by (simp add: same_song_def)
  have s0: "same_song (reset_channels fp a) (reset_channels fp b)"
    by (rule same_song_ctl [OF ctl_reset_channels ctl_reset_channels assms])
  let ?sps = "samplesPerStep_of (seqBPM b)"
  let ?total = "?sps * of_nat NUM_STEPS * word_of_int numLoops"
  let ?out0 = "[Exporting filename numLoops (seqBPM b) ?total (?total * 4 div 1024)]"
  let ?w0 = "\<lparr>f_bytes = writeWAVHeader ?total, wbuf = (\<lambda>i. 0), wbufPos = 0\<rparr>"
  obtain o1 w1 a1 where ra: "fold (export_loop fp (unat ?sps) numLoops) [0..<nat numLoops]
      (?out0, ?w0, reset_channels fp a) = (o1, w1, a1)" by (metis prod.exhaust)
  obtain o2 w2 b1 where rb: "fold (export_loop fp (unat ?sps) numLoops) [0..<nat numLoops]
      (?out0, ?w0, reset_channels fp b) = (o2, w2, b1)" by (metis prod.exhaust)
  from export_loops_same [OF reset_channels_same s0, where fp = fp and L = numLoops
      and ls = "[0..<nat numLoops]" and k = "unat ?sps" and out = ?out0 and w = ?w0] ra rb
  have e: "o2 = o1" "w2 = w1" by simp_all
  show ?thesis
    by (simp add: exportPatternToWAV_def Let_def bpm ra rb e)
qed

text \<open>
  The theorem for the start-up engine and the engine after a snare hit and one rendered
  snare sample, whose snare channel is sounding and whose noise register has advanced.
\<close>

theorem C9_export_deterministic_witness:
  "same_song (engine0 exact) (snd (synthSample exact CH_SNARE (trigSnare exact (engine0 exact)))) \<and>
   nlfsr (snd (synthSample exact CH_SNARE (trigSnare exact (engine0 exact)))) 0 \<noteq> nlfsr (engine0 exact) 0 \<and>
   active (ch (snd (synthSample exact CH_SNARE (trigSnare exact (engine0 exact)))) CH_SNARE) \<and>
   fst (snd (exportPatternToWAV exact ''song1.wav'' 2
      \<lparr>sd_begin = True, sd_can_open = (\<lambda>p. True), sd_files = Map.empty\<rparr> (engine0 exact))) =
   fst (snd (exportPatternToWAV exact ''song1.wav'' 2
      \<lparr>sd_begin = True, sd_can_open = (\<lambda>p. True), sd_files = Map.empty\<rparr>
      (snd (synthSample exact CH_SNARE (trigSnare exact (engine0 exact))))))"
proof -
  let ?b = "snd (synthSample exact CH_SNARE (trigSnare exact (engine0 exact)))"
  have c: "ctl ?b = ctl (engine0 exact)" by (simp add: ctl_synthSample ctl_trigSnare)
  have "same_song (engine0 exact) (engine0 exact)" by (simp add: same_song_def)
  from same_song_ctl [OF refl c this] have ss: "same_song (engine0 exact) ?b" .
  have n: "nlfsr ?b 0 \<noteq> nlfsr (engine0 exact) 0"
    by (simp add: synthSample_def trigSnare_def engine0_def Let_def exact_def lfsrNext_def ch_nums)
  have a: "active (ch ?b CH_SNARE)"
    by (simp add: synthSample_def trigSnare_def engine0_def Let_def exact_def lfsrNext_def ch_nums)
  from C9_export_deterministic [OF ss, of exact "''song1.wav''" 2
      "\<lparr>sd_begin = True, sd_can_open = (\<lambda>p. True), sd_files = Map.empty\<rparr>"] ss n a
  show ?thesis by simp
qed

subsection \<open>A live note of frequency zero\<close>

text \<open>
  Claim C10 at the message \<open>PLAY:0\<close>: the decoder passes the parsed frequency to
  \<open>trigNote\<close> without the test for a rest that \<open>trigSequencerStep\<close> makes, so the lead
  channel is active with frequency 0.
\<close>

theorem C10_play_zero:
  "active (ch (ws_text exact 0 ''PLAY:0'' (engine0 exact)) CH_LEAD) \<and>
   curFreq (ch (ws_text exact 0 ''PLAY:0'' (engine0 exact)) CH_LEAD) = 0"
  by (simp add: ws_text_def onWsEvent_def parse_defs trigNote_def exact_def)

end
